theory Spec2Isabelle
  imports Complex_Main "HOL-Library.Log_Nat" "HOL-Library.Word"
begin

unbundle bit_operations_syntax

section \<open>The batch: resource groupings, scope groupings, spans\<close>

text \<open>
  A shallow embedding of \<^verbatim>\<open>processor/intracesampler/processor.go\<close>.
  \<^verbatim>\<open>pcommon.SpanID\<close> is an array of 8 bytes and \<^verbatim>\<open>pcommon.TraceID\<close> one of
  16 bytes; both are only compared for equality and used as map keys, so they are words
  of 64 and 128 bits.
\<close>

type_synonym span_id = "64 word"
type_synonym trace_id = "128 word"

text \<open>
  \<^verbatim>\<open>ptrace.Span\<close>: the three identities the processor reads, and the span's name,
  which stands for the content the processor never looks at.
\<close>

record ptrace_span =
  SpanID :: span_id
  ParentSpanID :: span_id
  TraceID :: trace_id
  SpanName :: string

text \<open>\<^verbatim>\<open>pcommon.InstrumentationScope\<close> and \<^verbatim>\<open>pcommon.Resource\<close>.\<close>

record pcommon_scope =
  ScopeName :: string
  ScopeVersion :: string

type_synonym pcommon_resource = "(string \<times> string) list"

text \<open>\<^verbatim>\<open>ptrace.ScopeSpans\<close>, \<^verbatim>\<open>ptrace.ResourceSpans\<close> and \<^verbatim>\<open>ptrace.Traces\<close>.\<close>

record ptrace_scope_spans =
  Scope :: pcommon_scope
  Spans :: "ptrace_span list"

record ptrace_resource_spans =
  Resource :: pcommon_resource
  ScopeSpans :: "ptrace_scope_spans list"

type_synonym ptrace_traces = "ptrace_resource_spans list"

section \<open>Configuration and processor\<close>

text \<open>
  \<^verbatim>\<open>Config\<close> is declared in another file of the package; the processor reads
  \<^verbatim>\<open>SamplingPercentage\<close>, \<^verbatim>\<open>HashSeed\<close> and \<^verbatim>\<open>ScopeLeaves\<close> from it, and the
  package's test sets these three. \<^verbatim>\<open>SamplingPercentage\<close> is a Go float; its value
  is a rational number, and the width of its type is a parameter of the constructor
  below.
\<close>

record Config =
  SamplingPercentage :: rat
  HashSeed :: "32 word"
  ScopeLeaves :: "string list"

record inTraceSamplerProcessor =
  config :: Config
  scaledSamplingRate :: "32 word"

definition numHashBuckets :: nat where
  "numHashBuckets = 0x4000"

definition bitMaskHashBuckets :: "32 word" where
  "bitMaskHashBuckets = of_nat (numHashBuckets - 1)"

text \<open>
  \<^verbatim>\<open>percentageScaleFactor = numHashBuckets / 100.0\<close> is an untyped constant: Go
  computes it exactly.
\<close>

definition percentageScaleFactor :: rat where
  "percentageScaleFactor = of_nat numHashBuckets / 100"

subsection \<open>Floating-point arithmetic\<close>

text \<open>
  A binary floating-point format is its precision, the number of bits of the
  significand, and the exponent of its smallest normal number. Go's \<^verbatim>\<open>float32\<close> and
  \<^verbatim>\<open>float64\<close> are the formats binary32 and binary64 of IEEE 754. The finite values
  of a format are rational numbers. Infinities and NaN are left out: the values at hand
  stay far below the largest float.
\<close>

record float_format =
  precision :: nat
  emin :: int

definition binary32 :: float_format where
  "binary32 = \<lparr>precision = 24, emin = - 126\<rparr>"

definition binary64 :: float_format where
  "binary64 = \<lparr>precision = 53, emin = - 1022\<rparr>"

text \<open>The exponent of a positive number: \<open>2 powi ilog2 x \<le> x < 2 powi (ilog2 x + 1)\<close>.\<close>

definition ilog2 :: "rat \<Rightarrow> int" where
  "ilog2 x = (if 1 \<le> x then bitlen \<lfloor>x\<rfloor> - 1 else - bitlen (\<lceil>1 / x\<rceil> - 1))"

text \<open>
  The unit in the last place at \<open>x\<close>: the distance between neighbouring floats of the
  binade of \<open>x\<close>, and that of the smallest normal binade below it (gradual underflow).
\<close>

definition ulp :: "float_format \<Rightarrow> rat \<Rightarrow> rat" where
  "ulp fmt x = 2 powi (max (ilog2 \<bar>x\<bar>) (emin fmt) - int (precision fmt) + 1)"

definition roundHalfEven :: "rat \<Rightarrow> int" where
  "roundHalfEven y =
     (if y - of_int \<lfloor>y\<rfloor> < 1 / 2 then \<lfloor>y\<rfloor>
      else if 1 / 2 < y - of_int \<lfloor>y\<rfloor> then \<lfloor>y\<rfloor> + 1
      else if even \<lfloor>y\<rfloor> then \<lfloor>y\<rfloor> else \<lfloor>y\<rfloor> + 1)"

text \<open>
  Rounding to the nearest float, ties to even: the rounding of every Go float operation
  and of the conversion of a constant to a float type.
\<close>

definition roundToFloat :: "float_format \<Rightarrow> rat \<Rightarrow> rat" where
  "roundToFloat fmt x =
     (if x = 0 then 0 else of_int (roundHalfEven (x / ulp fmt x)) * ulp fmt x)"

definition representable :: "float_format \<Rightarrow> rat \<Rightarrow> bool" where
  "representable fmt x \<longleftrightarrow> roundToFloat fmt x = x"

text \<open>
  \<^verbatim>\<open>uint32(f)\<close> discards the fraction. Go leaves the result open when the value does
  not fit; the model wraps.
\<close>

definition toUint32 :: "rat \<Rightarrow> 32 word" where
  "toUint32 x = of_int (if 0 \<le> x then \<lfloor>x\<rfloor> else \<lceil>x\<rceil>)"

subsection \<open>The constructor\<close>

text \<open>
  \<^verbatim>\<open>newInTraceSamplerSpansProcessor\<close> stores
  \<^verbatim>\<open>uint32(cfg.SamplingPercentage * percentageScaleFactor)\<close>: the constant is
  converted to the float type of the percentage, the product is rounded in that type,
  and the conversion truncates it. The logger and the next consumer play no part.
\<close>

definition newInTraceSamplerSpansProcessor ::
  "float_format \<Rightarrow> Config \<Rightarrow> inTraceSamplerProcessor" where
  "newInTraceSamplerSpansProcessor fmt cfg =
     \<lparr>config = cfg,
      scaledSamplingRate =
        toUint32 (roundToFloat fmt
          (SamplingPercentage cfg * roundToFloat fmt percentageScaleFactor))\<rparr>"

section \<open>The trace tree\<close>

record FullSpan =
  resource :: pcommon_resource
  scope :: pcommon_scope
  span :: ptrace_span

record TraceTreeData =
  fullSpans :: "span_id \<rightharpoonup> FullSpan"
  children :: "span_id \<rightharpoonup> span_id list"
  roots :: "span_id list"

text \<open>
  The three nested loops over resource groupings, scope groupings and spans visit the
  spans in this order, each with the resource and scope it lies under.
\<close>

definition scopeFullSpans :: "pcommon_resource \<Rightarrow> ptrace_scope_spans \<Rightarrow> FullSpan list" where
  "scopeFullSpans res ss =
     map (\<lambda>sp. \<lparr>resource = res, scope = Scope ss, span = sp\<rparr>) (Spans ss)"

definition resourceFullSpans :: "ptrace_resource_spans \<Rightarrow> FullSpan list" where
  "resourceFullSpans rs = concat (map (scopeFullSpans (Resource rs)) (ScopeSpans rs))"

definition allFullSpans :: "ptrace_traces \<Rightarrow> FullSpan list" where
  "allFullSpans td = concat (map resourceFullSpans td)"

definition allSpans :: "ptrace_traces \<Rightarrow> ptrace_span list" where
  "allSpans td = map span (allFullSpans td)"

text \<open>Reading a slice from a Go map: a missing key gives the nil slice, which is empty.\<close>

definition childrenOf :: "(span_id \<rightharpoonup> span_id list) \<Rightarrow> span_id \<Rightarrow> span_id list" where
  "childrenOf ch p = (case ch p of None \<Rightarrow> [] | Some cs \<Rightarrow> cs)"

text \<open>The body of the innermost loop of \<^verbatim>\<open>spansToTraceTree\<close>.\<close>

definition addFullSpan ::
  "(span_id \<rightharpoonup> FullSpan) \<times> (span_id \<rightharpoonup> span_id list) \<Rightarrow> FullSpan \<Rightarrow>
   (span_id \<rightharpoonup> FullSpan) \<times> (span_id \<rightharpoonup> span_id list)" where
  "addFullSpan acc fs =
     (case acc of (fulls, spanChildren) \<Rightarrow>
        (fulls(SpanID (span fs) \<mapsto> fs),
         spanChildren(ParentSpanID (span fs) \<mapsto>
            childrenOf spanChildren (ParentSpanID (span fs)) @ [SpanID (span fs)])))"

definition buildMaps ::
  "FullSpan list \<Rightarrow> (span_id \<rightharpoonup> FullSpan) \<times> (span_id \<rightharpoonup> span_id list)" where
  "buildMaps fss = foldl addFullSpan (Map.empty, Map.empty) fss"

text \<open>
  The keys of \<^verbatim>\<open>fullSpans\<close> in the order the second loop ranges over them. Go leaves
  the order of a map range unspecified; the model takes the order of first insertion
  (the marks are the same for every order, see \<open>getScopeBranchesToUnsample_roots_order\<close>).
  The loop reads the span stored under each key.
\<close>

definition rangeKeys :: "FullSpan list \<Rightarrow> span_id list" where
  "rangeKeys fss = remdups (map (\<lambda>fs. SpanID (span fs)) fss)"

definition findRoots :: "(span_id \<rightharpoonup> FullSpan) \<Rightarrow> span_id list \<Rightarrow> span_id list" where
  "findRoots fulls ks =
     concat (map (\<lambda>k. case fulls k of None \<Rightarrow> []
                       | Some fullspan \<Rightarrow>
                           (case fulls (ParentSpanID (span fullspan)) of
                              None \<Rightarrow> [SpanID (span fullspan)]
                            | Some _ \<Rightarrow> [])) ks)"

definition spansToTraceTree :: "ptrace_traces \<Rightarrow> TraceTreeData" where
  "spansToTraceTree td =
     (case buildMaps (allFullSpans td) of (fulls, spanChildren) \<Rightarrow>
        \<lparr>fullSpans = fulls, children = spanChildren,
         roots = findRoots fulls (rangeKeys (allFullSpans td))\<rparr>)"

section \<open>The single-trace check\<close>

text \<open>
  \<^verbatim>\<open>getSingleTraceId\<close>: the first span sets the identity, a later span with another
  identity returns nil at once, and an empty batch leaves nil.
\<close>

fun singleTraceIdLoop :: "trace_id option \<Rightarrow> ptrace_span list \<Rightarrow> trace_id option" where
  "singleTraceIdLoop traceId [] = traceId"
| "singleTraceIdLoop traceId (sp # rest) =
     (case traceId of
        None \<Rightarrow> singleTraceIdLoop (Some (TraceID sp)) rest
      | Some t \<Rightarrow> if TraceID sp \<noteq> t then None else singleTraceIdLoop traceId rest)"

definition getSingleTraceId :: "ptrace_traces \<Rightarrow> trace_id option" where
  "getSingleTraceId td = singleTraceIdLoop None (allSpans td)"

section \<open>The subtree evaluator\<close>

text \<open>
  \<^verbatim>\<open>getScopeBranchesToUnsampleRec\<close> recurses through the children mapping with no
  bound of its own, so the model carries fuel for the depth of the recursion:
  \<open>OutOfFuel\<close> is a recursion deeper than the fuel. Reading the scope name of the zero
  \<^verbatim>\<open>FullSpan\<close>, which a missing key yields, dereferences a nil pointer.
\<close>

datatype failure = OutOfFuel | NilPointer

type_synonym unsampled = "span_id \<rightharpoonup> bool"

text \<open>The loop over the children: every child is evaluated, then and-ed in.\<close>

primrec forChildren ::
  "(span_id \<Rightarrow> unsampled \<Rightarrow> failure + bool \<times> unsampled) \<Rightarrow> span_id list \<Rightarrow> bool \<Rightarrow>
   unsampled \<Rightarrow> failure + bool \<times> unsampled" where
  "forChildren call [] currentUnsampled m = Inr (currentUnsampled, m)"
| "forChildren call (childSpanID # rest) currentUnsampled m =
     (case call childSpanID m of
        Inl e \<Rightarrow> Inl e
      | Inr (childUnsampled, m') \<Rightarrow>
          forChildren call rest (currentUnsampled \<and> childUnsampled) m')"

primrec getScopeBranchesToUnsampleRec ::
  "nat \<Rightarrow> inTraceSamplerProcessor \<Rightarrow> TraceTreeData \<Rightarrow> span_id \<Rightarrow> unsampled \<Rightarrow>
   failure + bool \<times> unsampled" where
  "getScopeBranchesToUnsampleRec 0 its t currentSpanID m = Inl OutOfFuel"
| "getScopeBranchesToUnsampleRec (Suc n) its t currentSpanID m =
     (case fullSpans t currentSpanID of
        None \<Rightarrow> Inl NilPointer
      | Some currentFullSpan \<Rightarrow>
          (case forChildren (getScopeBranchesToUnsampleRec n its t)
                  (childrenOf (children t) currentSpanID)
                  (ScopeName (scope currentFullSpan) \<in> set (ScopeLeaves (config its))) m of
             Inl e \<Rightarrow> Inl e
           | Inr (currentUnsampled, m') \<Rightarrow>
               Inr (currentUnsampled,
                    if currentUnsampled then m'(SpanID (span currentFullSpan) \<mapsto> True)
                    else m')))"

primrec forRoots ::
  "(span_id \<Rightarrow> unsampled \<Rightarrow> failure + bool \<times> unsampled) \<Rightarrow> span_id list \<Rightarrow>
   unsampled \<Rightarrow> failure + unsampled" where
  "forRoots call [] m = Inr m"
| "forRoots call (rootSpanID # rest) m =
     (case call rootSpanID m of
        Inl e \<Rightarrow> Inl e
      | Inr (_, m') \<Rightarrow> forRoots call rest m')"

definition getScopeBranchesToUnsample ::
  "nat \<Rightarrow> inTraceSamplerProcessor \<Rightarrow> TraceTreeData \<Rightarrow> failure + unsampled" where
  "getScopeBranchesToUnsample fuel its t =
     forRoots (getScopeBranchesToUnsampleRec fuel its t) (roots t) Map.empty"

section \<open>Removal and compaction\<close>

text \<open>
  \<^verbatim>\<open>RemoveIf\<close> calls its function on every element in order and drops those for
  which it returns true; the function may change the element before it answers.
\<close>

definition RemoveIf :: "('a \<Rightarrow> 'a \<times> bool) \<Rightarrow> 'a list \<Rightarrow> 'a list" where
  "RemoveIf f xs = map fst (filter (\<lambda>r. \<not> snd r) (map f xs))"

text \<open>Reading a bool from a Go map: a missing key gives false.\<close>

definition lookupBool :: "unsampled \<Rightarrow> span_id \<Rightarrow> bool" where
  "lookupBool m k = (case m k of None \<Rightarrow> False | Some b \<Rightarrow> b)"

definition removeFromScope :: "unsampled \<Rightarrow> ptrace_scope_spans \<Rightarrow> ptrace_scope_spans \<times> bool" where
  "removeFromScope idsToRemove ss =
     (let ss' = ss\<lparr>Spans := RemoveIf (\<lambda>sp. (sp, lookupBool idsToRemove (SpanID sp))) (Spans ss)\<rparr>
      in (ss', length (Spans ss') = 0))"

definition removeFromResource ::
  "unsampled \<Rightarrow> ptrace_resource_spans \<Rightarrow> ptrace_resource_spans \<times> bool" where
  "removeFromResource idsToRemove rs =
     (let rs' = rs\<lparr>ScopeSpans := RemoveIf (removeFromScope idsToRemove) (ScopeSpans rs)\<rparr>
      in (rs', length (ScopeSpans rs') = 0))"

definition removeSpansByIds :: "ptrace_traces \<Rightarrow> unsampled \<Rightarrow> ptrace_traces" where
  "removeSpansByIds td idsToRemove = RemoveIf (removeFromResource idsToRemove) td"

section \<open>The processor\<close>

datatype diagnostic = WarnDifferentTraces | DebugUnsampling nat

text \<open>
  \<^verbatim>\<open>hash\<close> is defined in another file of the package; it is a parameter here. The
  decision compares the low 14 bits of the hash with the scaled rate.
\<close>

definition sampled ::
  "(trace_id \<Rightarrow> 32 word \<Rightarrow> 32 word) \<Rightarrow> inTraceSamplerProcessor \<Rightarrow> trace_id \<Rightarrow> bool" where
  "sampled hash its singleTraceId =
     ((hash singleTraceId (HashSeed (config its)) AND bitMaskHashBuckets)
        < scaledSamplingRate its)"

definition processTraces ::
  "nat \<Rightarrow> (trace_id \<Rightarrow> 32 word \<Rightarrow> 32 word) \<Rightarrow> inTraceSamplerProcessor \<Rightarrow> ptrace_traces \<Rightarrow>
   failure + ptrace_traces \<times> diagnostic list" where
  "processTraces fuel hash its td =
     (case getSingleTraceId td of
        None \<Rightarrow> Inr (td, [WarnDifferentTraces])
      | Some singleTraceId \<Rightarrow>
          if sampled hash its singleTraceId then Inr (td, [])
          else
            (case getScopeBranchesToUnsample fuel its (spansToTraceTree td) of
               Inl e \<Rightarrow> Inl e
             | Inr unsampledSpanIds \<Rightarrow>
                 if card (dom unsampledSpanIds) = 0 then Inr (td, [])
                 else Inr (removeSpansByIds td unsampledSpanIds,
                           [DebugUnsampling (card (dom unsampledSpanIds))])))"

section \<open>Notions for the statements\<close>

definition uniqueSpanIDs :: "ptrace_traces \<Rightarrow> bool" where
  "uniqueSpanIDs td = distinct (map SpanID (allSpans td))"

text \<open>What the removal leaves of a scope grouping, a resource grouping and a batch.\<close>

definition keptSpans :: "unsampled \<Rightarrow> ptrace_scope_spans \<Rightarrow> ptrace_span list" where
  "keptSpans ids ss = filter (\<lambda>sp. \<not> lookupBool ids (SpanID sp)) (Spans ss)"

definition keptScopeSpans :: "unsampled \<Rightarrow> ptrace_resource_spans \<Rightarrow> ptrace_scope_spans list" where
  "keptScopeSpans ids rs =
     filter (\<lambda>ss. Spans ss \<noteq> []) (map (\<lambda>ss. ss\<lparr>Spans := keptSpans ids ss\<rparr>) (ScopeSpans rs))"

definition keptResourceSpans :: "unsampled \<Rightarrow> ptrace_traces \<Rightarrow> ptrace_traces" where
  "keptResourceSpans ids td =
     filter (\<lambda>rs. ScopeSpans rs \<noteq> []) (map (\<lambda>rs. rs\<lparr>ScopeSpans := keptScopeSpans ids rs\<rparr>) td)"

text \<open>
  The spans the evaluator visits: the argument of every call of
  \<^verbatim>\<open>getScopeBranchesToUnsampleRec\<close>, in the order of the calls. The recursion is that
  of \<^const>\<open>getScopeBranchesToUnsampleRec\<close>, with the same fuel.
\<close>

primrec visitsChildren ::
  "(span_id \<Rightarrow> failure + span_id list) \<Rightarrow> span_id list \<Rightarrow> failure + span_id list" where
  "visitsChildren call [] = Inr []"
| "visitsChildren call (childSpanID # rest) =
     (case call childSpanID of
        Inl e \<Rightarrow> Inl e
      | Inr v \<Rightarrow> (case visitsChildren call rest of Inl e \<Rightarrow> Inl e | Inr w \<Rightarrow> Inr (v @ w)))"

primrec visitsRec :: "nat \<Rightarrow> TraceTreeData \<Rightarrow> span_id \<Rightarrow> failure + span_id list" where
  "visitsRec 0 t currentSpanID = Inl OutOfFuel"
| "visitsRec (Suc n) t currentSpanID =
     (case fullSpans t currentSpanID of
        None \<Rightarrow> Inl NilPointer
      | Some currentFullSpan \<Rightarrow>
          (case visitsChildren (visitsRec n t) (childrenOf (children t) currentSpanID) of
             Inl e \<Rightarrow> Inl e
           | Inr v \<Rightarrow> Inr (currentSpanID # v)))"

definition visits :: "nat \<Rightarrow> TraceTreeData \<Rightarrow> failure + span_id list" where
  "visits fuel t = visitsChildren (visitsRec fuel t) (roots t)"

text \<open>
  The tree as a relation: \<open>(p, c)\<close> when \<open>c\<close> is listed among the children of \<open>p\<close>.
  The subtree of a span is what this relation reaches from it, the span included.
\<close>

definition childRel :: "TraceTreeData \<Rightarrow> (span_id \<times> span_id) set" where
  "childRel t = {(p, c). c \<in> set (childrenOf (children t) p)}"

definition subtree :: "TraceTreeData \<Rightarrow> span_id \<Rightarrow> span_id set" where
  "subtree t k = {d. (k, d) \<in> (childRel t)\<^sup>*}"

text \<open>
  The specification's predicate: the scope name of the span and of every span of its
  subtree is one of the scope leaves.
\<close>

definition prunable :: "inTraceSamplerProcessor \<Rightarrow> TraceTreeData \<Rightarrow> span_id \<Rightarrow> bool" where
  "prunable its t k =
     (\<forall>d\<in>subtree t k. \<forall>fs. fullSpans t d = Some fs \<longrightarrow>
        ScopeName (scope fs) \<in> set (ScopeLeaves (config its)))"

text \<open>
  A key lies at depth \<open>d\<close> when its chain of parents leaves the keys after \<open>d\<close> steps:
  depth 0 is a root.
\<close>

inductive depthIs :: "TraceTreeData \<Rightarrow> nat \<Rightarrow> span_id \<Rightarrow> bool" for t where
  depth_root: "fullSpans t k = Some fs \<Longrightarrow> fullSpans t (ParentSpanID (span fs)) = None \<Longrightarrow>
     depthIs t 0 k"
| depth_child: "fullSpans t k = Some fs \<Longrightarrow> depthIs t d (ParentSpanID (span fs)) \<Longrightarrow>
     depthIs t (Suc d) k"

text \<open>
  Acyclic parent references, as a check on the batch: from every span, following the
  parent identities leaves the batch within as many steps as the batch has spans.
\<close>

primrec parentChainLeaves :: "nat \<Rightarrow> ptrace_span list \<Rightarrow> span_id \<Rightarrow> bool" where
  "parentChainLeaves 0 sps k = (find (\<lambda>s. SpanID s = k) sps = None)"
| "parentChainLeaves (Suc n) sps k =
     (case find (\<lambda>s. SpanID s = k) sps of
        None \<Rightarrow> True
      | Some s \<Rightarrow> parentChainLeaves n sps (ParentSpanID s))"

definition acyclicParents :: "ptrace_traces \<Rightarrow> bool" where
  "acyclicParents td =
     list_all (\<lambda>sp. parentChainLeaves (length (allSpans td)) (allSpans td) (SpanID sp))
       (allSpans td)"

text \<open>What the tree builder guarantees for a batch with unique span identities.\<close>

definition wellFormedTree :: "TraceTreeData \<Rightarrow> bool" where
  "wellFormedTree t \<longleftrightarrow>
     finite (dom (fullSpans t))
     \<and> (\<forall>k fs. fullSpans t k = Some fs \<longrightarrow> SpanID (span fs) = k)
     \<and> (\<forall>p c. c \<in> set (childrenOf (children t) p) \<longleftrightarrow>
            (\<exists>fs. fullSpans t c = Some fs \<and> ParentSpanID (span fs) = p))
     \<and> (\<forall>p. distinct (childrenOf (children t) p))
     \<and> set (roots t) =
          {k. \<exists>fs. fullSpans t k = Some fs \<and> fullSpans t (ParentSpanID (span fs)) = None}
     \<and> distinct (roots t)"

text \<open>The marks one call adds to the map it is given.\<close>

definition markSubtree ::
  "inTraceSamplerProcessor \<Rightarrow> TraceTreeData \<Rightarrow> span_id \<Rightarrow> unsampled \<Rightarrow> unsampled" where
  "markSubtree its t k m = (\<lambda>x. if x \<in> subtree t k \<and> prunable its t x then Some True else m x)"

section \<open>Example batches\<close>

definition hash0 :: "trace_id \<Rightarrow> 32 word \<Rightarrow> 32 word" where
  "hash0 key seed = 0"

definition itsA :: inTraceSamplerProcessor where
  "itsA = \<lparr>config = \<lparr>SamplingPercentage = 0, HashSeed = 0, ScopeLeaves = [''A'']\<rparr>,
       scaledSamplingRate = 0\<rparr>"

definition mkSpan :: "span_id \<Rightarrow> span_id \<Rightarrow> trace_id \<Rightarrow> ptrace_span" where
  "mkSpan i p t = \<lparr>SpanID = i, ParentSpanID = p, TraceID = t, SpanName = ''op''\<rparr>"

definition mkScopeSpans :: "string \<Rightarrow> ptrace_span list \<Rightarrow> ptrace_scope_spans" where
  "mkScopeSpans n sps = \<lparr>Scope = \<lparr>ScopeName = n, ScopeVersion = ''''\<rparr>, Spans = sps\<rparr>"

definition twoTraces :: ptrace_traces where
  "twoTraces =
     [\<lparr>Resource = [], ScopeSpans = [mkScopeSpans ''A'' [mkSpan 1 0 1, mkSpan 2 0 2]]\<rparr>]"


definition twoResources :: ptrace_traces where
  "twoResources =
     [\<lparr>Resource = [(''host'', ''a'')], ScopeSpans = [mkScopeSpans ''A'' [mkSpan 2 1 1, mkSpan 3 1 1]]\<rparr>,
      \<lparr>Resource = [(''host'', ''b'')], ScopeSpans = [mkScopeSpans ''B'' [mkSpan 1 0 1]]\<rparr>]"

definition chainAAB :: ptrace_traces where
  "chainAAB =
     [\<lparr>Resource = [], ScopeSpans = [mkScopeSpans ''A'' [mkSpan 1 0 1, mkSpan 2 1 1],
         mkScopeSpans ''B'' [mkSpan 3 2 1]]\<rparr>]"

definition chainAAA :: ptrace_traces where
  "chainAAA =
     [\<lparr>Resource = [], ScopeSpans = [mkScopeSpans ''A'' [mkSpan 1 0 1, mkSpan 2 1 1],
         mkScopeSpans ''A'' [mkSpan 3 2 1]]\<rparr>]"

definition duplicateIDs :: ptrace_traces where
  "duplicateIDs =
     [\<lparr>Resource = [], ScopeSpans = [mkScopeSpans ''keep'' [mkSpan 1 0 1],
         mkScopeSpans ''A'' [mkSpan 1 0 1]]\<rparr>]"

definition cycleBatch :: ptrace_traces where
  "cycleBatch =
     [\<lparr>Resource = [], ScopeSpans = [mkScopeSpans ''A'' [mkSpan 1 0 1, mkSpan 2 3 1,
         mkSpan 3 2 1]]\<rparr>]"

definition keepRoot :: ptrace_traces where
  "keepRoot =
     [\<lparr>Resource = [], ScopeSpans = [mkScopeSpans ''keep'' [mkSpan 1 0 1],
         mkScopeSpans ''A'' [mkSpan 2 1 1, mkSpan 3 2 1]]\<rparr>]"

text \<open>The configuration of the package's test: 15.3 percent as a \<^verbatim>\<open>float32\<close>.\<close>

definition testConfig :: Config where
  "testConfig = \<lparr>SamplingPercentage = 16043213 / 1048576, HashSeed = 22,
     ScopeLeaves = [''foo'', ''bar'']\<rparr>"

definition hash2506 :: "trace_id \<Rightarrow> 32 word \<Rightarrow> 32 word" where
  "hash2506 key seed = 2506"

definition hashOnes :: "trace_id \<Rightarrow> 32 word \<Rightarrow> 32 word" where
  "hashOnes key seed = - 1"

section \<open>The single-trace check returns an identity only for a single trace\<close>

lemmas flatten_defs = allSpans_def allFullSpans_def resourceFullSpans_def scopeFullSpans_def

lemmas example_defs = mkSpan_def mkScopeSpans_def hash0_def itsA_def

lemma singleTraceIdLoop_Some:
  "singleTraceIdLoop (Some t) xs = (if \<forall>x\<in>set xs. TraceID x = t then Some t else None)"
  by (induction xs) simp_all

lemma getSingleTraceId_None_iff:
  "getSingleTraceId td = None \<longleftrightarrow>
     allSpans td = [] \<or> (\<exists>a\<in>set (allSpans td). \<exists>b\<in>set (allSpans td). TraceID a \<noteq> TraceID b)"
proof (cases "allSpans td")
  case Nil
  then show ?thesis by (simp add: getSingleTraceId_def)
next
  case (Cons x rest)
  show ?thesis
  proof (cases "\<forall>y\<in>set rest. TraceID y = TraceID x")
    case True
    with Cons show ?thesis by (simp add: getSingleTraceId_def singleTraceIdLoop_Some)
  next
    case False
    then obtain y where "y \<in> set rest" "TraceID y \<noteq> TraceID x" by blast
    with Cons False show ?thesis
      by (auto simp add: getSingleTraceId_def singleTraceIdLoop_Some)
  qed
qed

lemma getSingleTraceId_Some_iff:
  "getSingleTraceId td = Some tid \<longleftrightarrow>
     allSpans td \<noteq> [] \<and> (\<forall>a\<in>set (allSpans td). TraceID a = tid)"
proof (cases "allSpans td")
  case Nil
  then show ?thesis by (simp add: getSingleTraceId_def)
next
  case (Cons x rest)
  then show ?thesis
    by (auto simp add: getSingleTraceId_def singleTraceIdLoop_Some)
qed

text \<open>
  C4. A batch with no span, or with spans of two trace identities, is returned as it is,
  with the warning and with no span removed. The single-trace check returns no identity
  exactly for such a batch, and returns the shared identity exactly when there is a span
  and all spans agree on it.
\<close>

theorem processTraces_not_single_trace:
  "(getSingleTraceId td = None \<longleftrightarrow>
      (allSpans td = [] \<or>
       (\<exists>a\<in>set (allSpans td). \<exists>b\<in>set (allSpans td). TraceID a \<noteq> TraceID b)))
   \<and> (getSingleTraceId td = Some tid \<longleftrightarrow>
      (allSpans td \<noteq> [] \<and> (\<forall>a\<in>set (allSpans td). TraceID a = tid)))
   \<and> ((allSpans td = [] \<or>
       (\<exists>a\<in>set (allSpans td). \<exists>b\<in>set (allSpans td). TraceID a \<noteq> TraceID b)) \<longrightarrow>
      processTraces fuel hash its td = Inr (td, [WarnDifferentTraces]))"
proof (intro conjI impI)
  show "getSingleTraceId td = None \<longleftrightarrow>
      (allSpans td = [] \<or>
       (\<exists>a\<in>set (allSpans td). \<exists>b\<in>set (allSpans td). TraceID a \<noteq> TraceID b))"
    by (rule getSingleTraceId_None_iff)
  show "getSingleTraceId td = Some tid \<longleftrightarrow>
      (allSpans td \<noteq> [] \<and> (\<forall>a\<in>set (allSpans td). TraceID a = tid))"
    by (rule getSingleTraceId_Some_iff)
  assume "allSpans td = [] \<or>
       (\<exists>a\<in>set (allSpans td). \<exists>b\<in>set (allSpans td). TraceID a \<noteq> TraceID b)"
  then have "getSingleTraceId td = None"
    by (simp only: getSingleTraceId_None_iff)
  then show "processTraces fuel hash its td = Inr (td, [WarnDifferentTraces])"
    by (simp add: processTraces_def)
qed

theorem processTraces_not_single_trace_witness:
  "(\<exists>a\<in>set (allSpans twoTraces). \<exists>b\<in>set (allSpans twoTraces). TraceID a \<noteq> TraceID b)
   \<and> getSingleTraceId twoTraces = None
   \<and> processTraces 0 hash0 itsA twoTraces = Inr (twoTraces, [WarnDifferentTraces])"
proof -
  have h: "\<exists>a\<in>set (allSpans twoTraces). \<exists>b\<in>set (allSpans twoTraces). TraceID a \<noteq> TraceID b"
    by (auto simp add: flatten_defs twoTraces_def example_defs)
  from processTraces_not_single_trace [of twoTraces 1 0 hash0 itsA] h
  show ?thesis by simp
qed

section \<open>Removal and compaction: what is left\<close>

lemma RemoveIf_Nil: "RemoveIf f [] = []"
  by (simp add: RemoveIf_def)

lemma RemoveIf_Cons:
  "RemoveIf f (x # xs) = (if snd (f x) then RemoveIf f xs else fst (f x) # RemoveIf f xs)"
  by (simp add: RemoveIf_def)

lemma RemoveIf_filter_map:
  "RemoveIf f xs = filter (\<lambda>y. \<not> p y) (map g xs)"
  if "\<And>x. f x = (g x, p (g x))"
  by (induction xs) (simp_all add: RemoveIf_Nil RemoveIf_Cons that)

lemma removeFromScope_eq:
  "removeFromScope ids ss = (ss\<lparr>Spans := keptSpans ids ss\<rparr>, Spans (ss\<lparr>Spans := keptSpans ids ss\<rparr>) = [])"
proof -
  have "RemoveIf (\<lambda>sp. (sp, lookupBool ids (SpanID sp))) xs =
        filter (\<lambda>sp. \<not> lookupBool ids (SpanID sp)) xs" for xs
    by (induction xs) (simp_all add: RemoveIf_Nil RemoveIf_Cons)
  then have "RemoveIf (\<lambda>sp. (sp, lookupBool ids (SpanID sp))) (Spans ss) = keptSpans ids ss"
    by (simp add: keptSpans_def)
  then show ?thesis
    by (simp add: removeFromScope_def Let_def)
qed

lemma removeFromResource_eq:
  "removeFromResource ids rs =
     (rs\<lparr>ScopeSpans := keptScopeSpans ids rs\<rparr>,
      ScopeSpans (rs\<lparr>ScopeSpans := keptScopeSpans ids rs\<rparr>) = [])"
proof -
  have "RemoveIf (removeFromScope ids) (ScopeSpans rs) = keptScopeSpans ids rs"
    unfolding keptScopeSpans_def
    by (rule RemoveIf_filter_map) (simp add: removeFromScope_eq)
  then show ?thesis
    by (simp add: removeFromResource_def Let_def)
qed

lemma removeSpansByIds_eq: "removeSpansByIds td ids = keptResourceSpans ids td"
  unfolding removeSpansByIds_def keptResourceSpans_def
  by (rule RemoveIf_filter_map) (simp add: removeFromResource_eq)

lemmas tree_defs = spansToTraceTree_def buildMaps_def addFullSpan_def childrenOf_def
  rangeKeys_def findRoots_def

lemma keptScopeSpans_nonempty: "ss \<in> set (keptScopeSpans ids rs) \<Longrightarrow> Spans ss \<noteq> []"
  by (simp add: keptScopeSpans_def)

lemma keptResourceSpans_nonempty:
  "rs \<in> set (keptResourceSpans ids td) \<Longrightarrow>
     ScopeSpans rs \<noteq> [] \<and> (\<forall>ss\<in>set (ScopeSpans rs). Spans ss \<noteq> [])"
  by (auto simp add: keptResourceSpans_def keptScopeSpans_nonempty)

lemma keptSpans_all_marked:
  "(\<forall>sp\<in>set (Spans ss). lookupBool ids (SpanID sp)) \<Longrightarrow> keptSpans ids ss = []"
  by (simp add: keptSpans_def filter_empty_conv)

lemma keptScopeSpans_all_marked:
  "(\<forall>ss\<in>set (ScopeSpans rs). \<forall>sp\<in>set (Spans ss). lookupBool ids (SpanID sp)) \<Longrightarrow>
     keptScopeSpans ids rs = []"
  by (simp add: keptScopeSpans_def filter_empty_conv keptSpans_all_marked)

lemma concat_map_filter_skip:
  "(\<And>x. x \<in> set xs \<Longrightarrow> \<not> p x \<Longrightarrow> f x = []) \<Longrightarrow>
     concat (map f (filter p xs)) = concat (map f xs)"
  by (induction xs) simp_all

lemma scopeFullSpans_kept:
  "scopeFullSpans res (ss\<lparr>Spans := keptSpans ids ss\<rparr>) =
     filter (\<lambda>fs. \<not> lookupBool ids (SpanID (span fs))) (scopeFullSpans res ss)"
  by (simp add: scopeFullSpans_def keptSpans_def filter_map o_def)

lemma scopeFullSpans_Nil: "Spans ss = [] \<Longrightarrow> scopeFullSpans res ss = []"
  by (simp add: scopeFullSpans_def)

lemma resourceFullSpans_Nil: "ScopeSpans rs = [] \<Longrightarrow> resourceFullSpans rs = []"
  by (simp add: resourceFullSpans_def)

lemma resourceFullSpans_kept:
  "resourceFullSpans (rs\<lparr>ScopeSpans := keptScopeSpans ids rs\<rparr>) =
     filter (\<lambda>fs. \<not> lookupBool ids (SpanID (span fs))) (resourceFullSpans rs)"
proof -
  have "concat (map (scopeFullSpans (Resource rs)) (keptScopeSpans ids rs)) =
        concat (map (scopeFullSpans (Resource rs))
           (map (\<lambda>ss. ss\<lparr>Spans := keptSpans ids ss\<rparr>) (ScopeSpans rs)))"
    unfolding keptScopeSpans_def
    by (rule concat_map_filter_skip) (simp add: scopeFullSpans_Nil)
  also have "\<dots> = filter (\<lambda>fs. \<not> lookupBool ids (SpanID (span fs)))
        (concat (map (scopeFullSpans (Resource rs)) (ScopeSpans rs)))"
    by (simp add: filter_concat o_def scopeFullSpans_kept)
  finally show ?thesis
    by (simp add: resourceFullSpans_def)
qed

lemma allFullSpans_kept:
  "allFullSpans (keptResourceSpans ids td) =
     filter (\<lambda>fs. \<not> lookupBool ids (SpanID (span fs))) (allFullSpans td)"
proof -
  have "concat (map resourceFullSpans (keptResourceSpans ids td)) =
        concat (map resourceFullSpans (map (\<lambda>rs. rs\<lparr>ScopeSpans := keptScopeSpans ids rs\<rparr>) td))"
    unfolding keptResourceSpans_def
    by (rule concat_map_filter_skip) (simp add: resourceFullSpans_Nil)
  also have "\<dots> = filter (\<lambda>fs. \<not> lookupBool ids (SpanID (span fs)))
        (concat (map resourceFullSpans td))"
    by (simp add: filter_concat o_def resourceFullSpans_kept)
  finally show ?thesis
    by (simp add: allFullSpans_def)
qed

lemma allSpans_kept:
  "allSpans (keptResourceSpans ids td) =
     filter (\<lambda>sp. \<not> lookupBool ids (SpanID sp)) (allSpans td)"
  by (simp add: allSpans_def allFullSpans_kept filter_map o_def)

text \<open>
  C5. After the removal no scope grouping without spans and no resource grouping without
  scope groupings is left; a scope grouping all of whose spans are removed disappears
  from its resource grouping, and a resource grouping all of whose spans are removed
  disappears from the batch, the other groupings being treated as without it.
\<close>

theorem removeSpansByIds_drops_emptied_groupings:
  "(\<forall>rs\<in>set (removeSpansByIds td ids).
       ScopeSpans rs \<noteq> [] \<and> (\<forall>ss\<in>set (ScopeSpans rs). Spans ss \<noteq> []))
   \<and> ((\<forall>sp\<in>set (Spans ss). lookupBool ids (SpanID sp)) \<longrightarrow>
        fst (removeFromResource ids (rs\<lparr>ScopeSpans := ssl @ ss # ssr\<rparr>)) =
        fst (removeFromResource ids (rs\<lparr>ScopeSpans := ssl @ ssr\<rparr>)))
   \<and> ((\<forall>ss\<in>set (ScopeSpans rs). \<forall>sp\<in>set (Spans ss). lookupBool ids (SpanID sp)) \<longrightarrow>
        removeSpansByIds (rsl @ rs # rsr) ids =
        removeSpansByIds rsl ids @ removeSpansByIds rsr ids)"
proof (intro conjI impI ballI)
  fix rs' assume "rs' \<in> set (removeSpansByIds td ids)"
  then have "rs' \<in> set (keptResourceSpans ids td)"
    by (simp only: removeSpansByIds_eq)
  then have "ScopeSpans rs' \<noteq> [] \<and> (\<forall>ss\<in>set (ScopeSpans rs'). Spans ss \<noteq> [])"
    by (rule keptResourceSpans_nonempty)
  then show "ScopeSpans rs' \<noteq> []" and "\<And>ss'. ss' \<in> set (ScopeSpans rs') \<Longrightarrow> Spans ss' \<noteq> []"
    by simp_all
next
  assume "\<forall>sp\<in>set (Spans ss). lookupBool ids (SpanID sp)"
  then have "keptSpans ids ss = []" by (rule keptSpans_all_marked)
  then show "fst (removeFromResource ids (rs\<lparr>ScopeSpans := ssl @ ss # ssr\<rparr>)) =
        fst (removeFromResource ids (rs\<lparr>ScopeSpans := ssl @ ssr\<rparr>))"
    by (simp add: removeFromResource_eq keptScopeSpans_def)
next
  assume "\<forall>ss\<in>set (ScopeSpans rs). \<forall>sp\<in>set (Spans ss). lookupBool ids (SpanID sp)"
  then have "keptScopeSpans ids rs = []" by (rule keptScopeSpans_all_marked)
  then show "removeSpansByIds (rsl @ rs # rsr) ids =
        removeSpansByIds rsl ids @ removeSpansByIds rsr ids"
    by (simp add: removeSpansByIds_eq keptResourceSpans_def)
qed

lemmas kept_defs = keptResourceSpans_def keptScopeSpans_def keptSpans_def lookupBool_def

theorem removeSpansByIds_drops_emptied_groupings_witness:
  "list_all (\<lambda>ss. list_all (\<lambda>sp. lookupBool [2 \<mapsto> True, 3 \<mapsto> True] (SpanID sp)) (Spans ss))
      (ScopeSpans (hd twoResources))
   \<and> removeSpansByIds twoResources [2 \<mapsto> True, 3 \<mapsto> True] = tl twoResources"
proof -
  have h: "\<forall>ss\<in>set (ScopeSpans (hd twoResources)). \<forall>sp\<in>set (Spans ss).
       lookupBool [2 \<mapsto> True, 3 \<mapsto> True] (SpanID sp)"
    by (simp add: twoResources_def example_defs lookupBool_def)
  have "removeSpansByIds ([] @ hd twoResources # tl twoResources) [2 \<mapsto> True, 3 \<mapsto> True] =
        removeSpansByIds [] [2 \<mapsto> True, 3 \<mapsto> True] @
        removeSpansByIds (tl twoResources) [2 \<mapsto> True, 3 \<mapsto> True]"
    using removeSpansByIds_drops_emptied_groupings
      [where ids = "[2 \<mapsto> True, 3 \<mapsto> True]" and rs = "hd twoResources"
         and rsl = "[]" and rsr = "tl twoResources"] h
    by blast
  then have "removeSpansByIds twoResources [2 \<mapsto> True, 3 \<mapsto> True] = tl twoResources"
    by (simp add: twoResources_def example_defs removeSpansByIds_eq kept_defs)
  with h show ?thesis by (simp add: list_all_iff)
qed






section \<open>The tree built from a batch\<close>

lemma foldl_addFullSpan_fst:
  "fst (foldl addFullSpan (f, c) fss) k =
     (case filter (\<lambda>fs. SpanID (span fs) = k) fss of
        [] \<Rightarrow> f k
      | x # xs \<Rightarrow> Some (last (x # xs)))"
proof (induction fss arbitrary: f c)
  case Nil
  then show ?case by simp
next
  case (Cons a fss)
  have step: "addFullSpan (f, c) a = (f(SpanID (span a) \<mapsto> a),
      c(ParentSpanID (span a) \<mapsto> childrenOf c (ParentSpanID (span a)) @ [SpanID (span a)]))"
    by (simp add: addFullSpan_def)
  show ?case
    unfolding foldl_Cons step Cons.IH
    by (simp split: list.splits)
qed

lemma foldl_addFullSpan_snd:
  "childrenOf (snd (foldl addFullSpan (f, c) fss)) p =
     childrenOf c p @
     map (\<lambda>fs. SpanID (span fs)) (filter (\<lambda>fs. ParentSpanID (span fs) = p) fss)"
proof (induction fss arbitrary: f c)
  case Nil
  then show ?case by simp
next
  case (Cons a fss)
  have step: "addFullSpan (f, c) a = (f(SpanID (span a) \<mapsto> a),
      c(ParentSpanID (span a) \<mapsto> childrenOf c (ParentSpanID (span a)) @ [SpanID (span a)]))"
    by (simp add: addFullSpan_def)
  show ?case
    unfolding foldl_Cons step Cons.IH
    by (simp add: childrenOf_def)
qed

lemma fullSpans_spansToTraceTree:
  "fullSpans (spansToTraceTree td) k =
     (case filter (\<lambda>fs. SpanID (span fs) = k) (allFullSpans td) of
        [] \<Rightarrow> None
      | x # xs \<Rightarrow> Some (last (x # xs)))"
  using foldl_addFullSpan_fst [of Map.empty Map.empty "allFullSpans td" k]
  by (simp add: spansToTraceTree_def buildMaps_def case_prod_beta)

lemma children_spansToTraceTree:
  "childrenOf (children (spansToTraceTree td)) p =
     map (\<lambda>fs. SpanID (span fs)) (filter (\<lambda>fs. ParentSpanID (span fs) = p) (allFullSpans td))"
  using foldl_addFullSpan_snd [of Map.empty Map.empty "allFullSpans td" p]
  by (simp add: spansToTraceTree_def buildMaps_def case_prod_beta childrenOf_def)

lemma roots_spansToTraceTree:
  "roots (spansToTraceTree td) =
     findRoots (fullSpans (spansToTraceTree td)) (rangeKeys (allFullSpans td))"
  by (simp add: spansToTraceTree_def case_prod_beta)

lemma fullSpans_Some_in_batch:
  assumes "fullSpans (spansToTraceTree td) k = Some fs"
  shows "fs \<in> set (allFullSpans td) \<and> SpanID (span fs) = k"
proof (cases "filter (\<lambda>fs. SpanID (span fs) = k) (allFullSpans td)")
  case Nil
  with assms show ?thesis by (simp add: fullSpans_spansToTraceTree)
next
  case (Cons x xs)
  with assms have "fs = last (x # xs)" by (simp add: fullSpans_spansToTraceTree)
  then have "fs \<in> set (filter (\<lambda>fs. SpanID (span fs) = k) (allFullSpans td))"
    unfolding Cons by (metis last_in_set list.distinct(1))
  then show ?thesis by simp
qed

lemma fullSpans_None_iff:
  "fullSpans (spansToTraceTree td) k = None \<longleftrightarrow> k \<notin> SpanID ` set (allSpans td)"
proof -
  have "filter (\<lambda>fs. SpanID (span fs) = k) (allFullSpans td) = [] \<longleftrightarrow>
        k \<notin> SpanID ` set (allSpans td)"
    by (auto simp add: filter_empty_conv allSpans_def)
  moreover have "fullSpans (spansToTraceTree td) k = None \<longleftrightarrow>
        filter (\<lambda>fs. SpanID (span fs) = k) (allFullSpans td) = []"
    by (simp add: fullSpans_spansToTraceTree split: list.splits)
  ultimately show ?thesis by simp
qed

lemma dom_fullSpans: "dom (fullSpans (spansToTraceTree td)) = SpanID ` set (allSpans td)"
  using fullSpans_None_iff [of td] by (auto simp add: dom_def)

lemma filter_key_distinct:
  "distinct (map f xs) \<Longrightarrow> a \<in> set xs \<Longrightarrow> filter (\<lambda>x. f x = f a) xs = [a]"
proof (induction xs)
  case Nil
  then show ?case by simp
next
  case (Cons x xs)
  show ?case
  proof (cases "x = a")
    case True
    with Cons.prems have "f a \<notin> f ` set xs" by simp
    then have "\<forall>y\<in>set xs. f y \<noteq> f a" by (metis imageI)
    then have "filter (\<lambda>x. f x = f a) xs = []" by (simp add: filter_empty_conv)
    with True show ?thesis by simp
  next
    case False
    with Cons.prems have "a \<in> set xs" "f x \<noteq> f a" by auto
    with Cons show ?thesis by simp
  qed
qed

lemma uniqueSpanIDs_alt:
  "uniqueSpanIDs td \<longleftrightarrow> distinct (map (\<lambda>fs. SpanID (span fs)) (allFullSpans td))"
  by (simp add: uniqueSpanIDs_def allSpans_def o_def)

lemma fullSpans_unique:
  assumes "uniqueSpanIDs td" and "fs \<in> set (allFullSpans td)"
  shows "fullSpans (spansToTraceTree td) (SpanID (span fs)) = Some fs"
  using filter_key_distinct [OF assms(1) [unfolded uniqueSpanIDs_alt] assms(2)]
  by (simp add: fullSpans_spansToTraceTree)

lemma set_rangeKeys: "set (rangeKeys (allFullSpans td)) = SpanID ` set (allSpans td)"
  by (auto simp add: rangeKeys_def allSpans_def)

lemma distinct_rangeKeys: "distinct (rangeKeys fss)"
  by (simp add: rangeKeys_def)

lemma in_findRoots_iff:
  "x \<in> set (findRoots fulls ks) \<longleftrightarrow>
     (\<exists>k\<in>set ks. \<exists>fs. fulls k = Some fs \<and> fulls (ParentSpanID (span fs)) = None \<and>
         x = SpanID (span fs))"
proof (induction ks)
  case Nil
  show ?case by (simp add: findRoots_def)
next
  case (Cons k ks)
  have "findRoots fulls (k # ks) =
     (case fulls k of None \<Rightarrow> []
      | Some fullspan \<Rightarrow>
          (case fulls (ParentSpanID (span fullspan)) of
             None \<Rightarrow> [SpanID (span fullspan)]
           | Some _ \<Rightarrow> [])) @ findRoots fulls ks"
    by (simp add: findRoots_def)
  then show ?case
    using Cons.IH by (cases "fulls k") (auto split: option.splits)
qed

lemma set_roots:
  "set (roots (spansToTraceTree td)) =
     {k. \<exists>fs. fullSpans (spansToTraceTree td) k = Some fs \<and>
           fullSpans (spansToTraceTree td) (ParentSpanID (span fs)) = None}"
  (is "?L = ?R")
proof
  show "?L \<subseteq> ?R"
    unfolding roots_spansToTraceTree
    using fullSpans_Some_in_batch [of td] by (auto simp add: in_findRoots_iff)
  show "?R \<subseteq> ?L"
  proof
    fix k assume "k \<in> ?R"
    then obtain fs where fs: "fullSpans (spansToTraceTree td) k = Some fs"
        "fullSpans (spansToTraceTree td) (ParentSpanID (span fs)) = None" by blast
    then have "SpanID (span fs) = k" "k \<in> set (rangeKeys (allFullSpans td))"
      using fullSpans_Some_in_batch [OF fs(1)] fullSpans_None_iff [of td k]
      by (simp_all add: set_rangeKeys)
    with fs show "k \<in> ?L"
      unfolding roots_spansToTraceTree in_findRoots_iff by blast
  qed
qed

text \<open>
  C8. For a batch with unique span identities the roots of the tree are exactly the keys
  of \<open>fullSpans\<close> whose span has a parent identity that is no key; so the roots are
  keys, and the parent of every span that is no root is a key. The keys are the span
  identities of the batch, and a span is a root exactly when no span of the batch has
  its parent identity.
\<close>

theorem spansToTraceTree_roots:
  "uniqueSpanIDs td \<Longrightarrow>
     set (roots (spansToTraceTree td)) =
       {k \<in> dom (fullSpans (spansToTraceTree td)).
          \<exists>fs. fullSpans (spansToTraceTree td) k = Some fs \<and>
               ParentSpanID (span fs) \<notin> dom (fullSpans (spansToTraceTree td))}
     \<and> set (roots (spansToTraceTree td)) \<subseteq> dom (fullSpans (spansToTraceTree td))
     \<and> (\<forall>sp\<in>set (allSpans td). SpanID sp \<notin> set (roots (spansToTraceTree td)) \<longrightarrow>
           ParentSpanID sp \<in> dom (fullSpans (spansToTraceTree td)))
     \<and> (\<forall>sp\<in>set (allSpans td). SpanID sp \<in> set (roots (spansToTraceTree td)) \<longleftrightarrow>
           ParentSpanID sp \<notin> SpanID ` set (allSpans td))
     \<and> dom (fullSpans (spansToTraceTree td)) = SpanID ` set (allSpans td)"
proof (intro conjI ballI impI)
  assume u: "uniqueSpanIDs td"
  let ?t = "spansToTraceTree td"
  show r: "set (roots ?t) = {k \<in> dom (fullSpans ?t).
          \<exists>fs. fullSpans ?t k = Some fs \<and> ParentSpanID (span fs) \<notin> dom (fullSpans ?t)}"
    unfolding set_roots by (auto simp add: dom_def)
  then show "set (roots ?t) \<subseteq> dom (fullSpans ?t)" by blast
  show d: "dom (fullSpans ?t) = SpanID ` set (allSpans td)" by (rule dom_fullSpans)
  have stored: "fullSpans ?t (SpanID sp) = Some fs"
    if "fs \<in> set (allFullSpans td)" "span fs = sp" for sp fs
    using fullSpans_unique [OF u that(1)] that(2) by simp
  have iff: "SpanID sp \<in> set (roots ?t) \<longleftrightarrow> ParentSpanID sp \<notin> dom (fullSpans ?t)"
    if "sp \<in> set (allSpans td)" for sp
  proof -
    from that obtain fs where "fs \<in> set (allFullSpans td)" "span fs = sp"
      by (auto simp add: allSpans_def)
    then have "fullSpans ?t (SpanID sp) = Some fs" by (rule stored)
    with \<open>span fs = sp\<close> show ?thesis
      unfolding set_roots by (auto simp add: dom_def)
  qed
  show "ParentSpanID sp \<in> dom (fullSpans ?t)"
    if "sp \<in> set (allSpans td)" "SpanID sp \<notin> set (roots ?t)" for sp
    using iff [OF that(1)] that(2) by simp
  show "SpanID sp \<in> set (roots ?t) \<longleftrightarrow> ParentSpanID sp \<notin> SpanID ` set (allSpans td)"
    if "sp \<in> set (allSpans td)" for sp
    using iff [OF that] d by simp
qed

lemma uniqueSpanIDs_chainAAB: "uniqueSpanIDs chainAAB"
  by (simp add: uniqueSpanIDs_def chainAAB_def flatten_defs example_defs)

theorem spansToTraceTree_roots_witness:
  "uniqueSpanIDs chainAAB
   \<and> roots (spansToTraceTree chainAAB) = [1]
   \<and> set (roots (spansToTraceTree chainAAB)) \<subseteq> dom (fullSpans (spansToTraceTree chainAAB))
   \<and> dom (fullSpans (spansToTraceTree chainAAB)) = {1, 2, 3}"
proof -
  have "roots (spansToTraceTree chainAAB) = [1]"
    by (simp add: chainAAB_def tree_defs flatten_defs example_defs)
  moreover have "SpanID ` set (allSpans chainAAB) = {1, 2, 3}"
    by (simp add: chainAAB_def flatten_defs example_defs)
  moreover note th = spansToTraceTree_roots [OF uniqueSpanIDs_chainAAB]
  from th have "set (roots (spansToTraceTree chainAAB)) \<subseteq>
      dom (fullSpans (spansToTraceTree chainAAB))" by blast
  moreover from th have "dom (fullSpans (spansToTraceTree chainAAB)) =
      SpanID ` set (allSpans chainAAB)" by blast
  ultimately show ?thesis
    using uniqueSpanIDs_chainAAB by simp
qed

section \<open>The evaluator on a well-formed tree\<close>

lemma subtree_unfold:
  "subtree t k = insert k (\<Union>c\<in>set (childrenOf (children t) k). subtree t c)"
proof (intro set_eqI iffI)
  fix x assume "x \<in> subtree t k"
  then have "(k, x) \<in> (childRel t)\<^sup>*" by (simp add: subtree_def)
  then show "x \<in> insert k (\<Union>c\<in>set (childrenOf (children t) k). subtree t c)"
  proof (cases rule: converse_rtranclE)
    case base
    then show ?thesis by simp
  next
    case (step c)
    then show ?thesis by (auto simp add: subtree_def childRel_def)
  qed
next
  fix x assume "x \<in> insert k (\<Union>c\<in>set (childrenOf (children t) k). subtree t c)"
  then consider "x = k" | c where "c \<in> set (childrenOf (children t) k)" "x \<in> subtree t c"
    by auto
  then show "x \<in> subtree t k"
  proof cases
    case 1
    then show ?thesis by (simp add: subtree_def)
  next
    case 2
    then have "(k, c) \<in> childRel t" "(c, x) \<in> (childRel t)\<^sup>*"
      by (simp_all add: subtree_def childRel_def)
    then show ?thesis by (simp add: subtree_def converse_rtrancl_into_rtrancl)
  qed
qed

lemma self_in_subtree: "k \<in> subtree t k"
  by (simp add: subtree_def)

lemma prunable_unfold:
  "prunable its t k \<longleftrightarrow>
     (\<forall>fs. fullSpans t k = Some fs \<longrightarrow> ScopeName (scope fs) \<in> set (ScopeLeaves (config its)))
     \<and> (\<forall>c\<in>set (childrenOf (children t) k). prunable its t c)"
  unfolding prunable_def subtree_unfold [of t k] by blast

lemma forChildren_result:
  assumes "\<And>c m. c \<in> set cs \<Longrightarrow> call c m = Inr (P c, U c m)"
  shows "forChildren call cs b m = Inr (b \<and> (\<forall>c\<in>set cs. P c), foldl (\<lambda>m c. U c m) m cs)"
  using assms
proof (induction cs arbitrary: b m)
  case Nil
  then show ?case by simp
next
  case (Cons c cs)
  have "call c m = Inr (P c, U c m)" by (rule Cons.prems) simp
  moreover have "forChildren call cs (b \<and> P c) (U c m) =
      Inr ((b \<and> P c) \<and> (\<forall>c\<in>set cs. P c), foldl (\<lambda>m c. U c m) (U c m) cs)"
    by (rule Cons.IH) (simp add: Cons.prems)
  ultimately show ?case by (simp add: conj_assoc)
qed

lemma forRoots_result:
  assumes "\<And>c m. c \<in> set cs \<Longrightarrow> call c m = Inr (P c, U c m)"
  shows "forRoots call cs m = Inr (foldl (\<lambda>m c. U c m) m cs)"
  using assms
proof (induction cs arbitrary: m)
  case Nil
  then show ?case by simp
next
  case (Cons c cs)
  have "call c m = Inr (P c, U c m)" by (rule Cons.prems) simp
  moreover have "forRoots call cs (U c m) = Inr (foldl (\<lambda>m c. U c m) (U c m) cs)"
    by (rule Cons.IH) (simp add: Cons.prems)
  ultimately show ?case by simp
qed

lemma foldl_markSubtree:
  "foldl (\<lambda>m c. markSubtree its t c m) m cs =
     (\<lambda>x. if (\<exists>c\<in>set cs. x \<in> subtree t c) \<and> prunable its t x then Some True else m x)"
proof (induction cs arbitrary: m)
  case Nil
  then show ?case by simp
next
  case (Cons c cs)
  show ?case
    unfolding foldl_Cons Cons.IH
    by (rule ext) (simp add: markSubtree_def)
qed
lemma depthIs_key: "depthIs t d k \<Longrightarrow> \<exists>fs. fullSpans t k = Some fs"
  by (cases rule: depthIs.cases) auto

lemma depthIs_unique: "depthIs t d k \<Longrightarrow> depthIs t d' k \<Longrightarrow> d = d'"
proof (induction arbitrary: d' rule: depthIs.induct)
  case (depth_root k fs)
  from depth_root.prems depth_root.hyps show ?case
    by (cases rule: depthIs.cases) (auto dest: depthIs_key)
next
  case (depth_child k fs d)
  from depth_child.prems show ?case
  proof (cases rule: depthIs.cases)
    case (depth_root fs')
    with depth_child.hyps show ?thesis by (auto dest: depthIs_key)
  next
    case (depth_child fs' e)
    with depth_child.hyps have "depthIs t e (ParentSpanID (span fs))" by simp
    then have "d = e" by (rule depth_child.IH)
    with depth_child show ?thesis by simp
  qed
qed

lemma depthIs_below: "depthIs t d k \<Longrightarrow> j \<le> d \<Longrightarrow> \<exists>k'. depthIs t j k'"
proof (induction rule: depthIs.induct)
  case (depth_root k fs)
  then have "depthIs t 0 k" by (auto intro: depthIs.depth_root)
  with depth_root.prems show ?case by auto
next
  case (depth_child k fs d)
  show ?case
  proof (cases "j = Suc d")
    case True
    from depth_child.hyps have "depthIs t (Suc d) k" by (rule depthIs.depth_child)
    with True show ?thesis by blast
  next
    case False
    with depth_child.prems have "j \<le> d" by simp
    then show ?thesis by (rule depth_child.IH)
  qed
qed

lemma depthIs_less_card:
  assumes fin: "finite (dom (fullSpans t))" and dk: "depthIs t d k"
  shows "d < card (dom (fullSpans t))"
proof -
  define anc where "anc j = (SOME k'. depthIs t j k')" for j
  have anc: "depthIs t j (anc j)" if "j \<le> d" for j
    unfolding anc_def using depthIs_below [OF dk that] by (rule someI_ex)
  have "inj_on anc {..d}"
  proof (rule inj_onI)
    fix i j assume "i \<in> {..d}" "j \<in> {..d}" "anc i = anc j"
    then have "depthIs t i (anc i)" "depthIs t j (anc i)"
      using anc [of i] anc [of j] by simp_all
    then show "i = j" by (rule depthIs_unique)
  qed
  then have "card (anc ` {..d}) = Suc d" by (simp add: card_image)
  moreover have "anc ` {..d} \<subseteq> dom (fullSpans t)"
    using anc depthIs_key by fastforce
  ultimately have "Suc d \<le> card (dom (fullSpans t))"
    using card_mono [OF fin] by metis
  then show ?thesis by simp
qed

lemma depthIs_children:
  assumes wf: "wellFormedTree t" and dk: "depthIs t d k"
    and c: "c \<in> set (childrenOf (children t) k)"
  shows "depthIs t (Suc d) c"
proof -
  from wf c obtain fs where "fullSpans t c = Some fs" "ParentSpanID (span fs) = k"
    unfolding wellFormedTree_def by blast
  with dk show ?thesis by (auto intro: depthIs.depth_child)
qed

lemma getScopeBranchesToUnsampleRec_result:
  assumes wf: "wellFormedTree t"
  shows "depthIs t d k \<Longrightarrow> card (dom (fullSpans t)) \<le> d + n \<Longrightarrow>
     getScopeBranchesToUnsampleRec n its t k m =
       Inr (prunable its t k, markSubtree its t k m)"
proof (induction n arbitrary: d k m)
  case 0
  from wf have "finite (dom (fullSpans t))" by (simp add: wellFormedTree_def)
  from depthIs_less_card [OF this "0.prems"(1)] "0.prems"(2) show ?case by simp
next
  case (Suc n)
  from depthIs_key [OF Suc.prems(1)] obtain fs where fs: "fullSpans t k = Some fs" by blast
  with wf have id: "SpanID (span fs) = k" by (simp add: wellFormedTree_def)
  let ?cs = "childrenOf (children t) k"
  let ?own = "ScopeName (scope fs) \<in> set (ScopeLeaves (config its))"
  have calls: "getScopeBranchesToUnsampleRec n its t c m' =
      Inr (prunable its t c, markSubtree its t c m')" if "c \<in> set ?cs" for c m'
  proof (rule Suc.IH)
    show "depthIs t (Suc d) c" by (rule depthIs_children [OF wf Suc.prems(1) that])
    show "card (dom (fullSpans t)) \<le> Suc d + n" using Suc.prems(2) by simp
  qed
  have loop: "forChildren (getScopeBranchesToUnsampleRec n its t) ?cs ?own m =
      Inr (?own \<and> (\<forall>c\<in>set ?cs. prunable its t c),
           foldl (\<lambda>m c. markSubtree its t c m) m ?cs)"
    by (rule forChildren_result) (rule calls)
  have p: "prunable its t k \<longleftrightarrow> ?own \<and> (\<forall>c\<in>set ?cs. prunable its t c)"
    using prunable_unfold [of its t k] fs by simp
  have marks: "(if prunable its t k
        then (foldl (\<lambda>m c. markSubtree its t c m) m ?cs)(k \<mapsto> True)
        else foldl (\<lambda>m c. markSubtree its t c m) m ?cs) = markSubtree its t k m"
    unfolding foldl_markSubtree
    by (rule ext) (auto simp add: markSubtree_def subtree_unfold [of t k])
  show ?case
    unfolding getScopeBranchesToUnsampleRec.simps
    using marks by (simp add: fs loop id p [symmetric] split: if_splits)
qed

lemma depthIs_root_iff:
  assumes wf: "wellFormedTree t"
  shows "depthIs t 0 k \<longleftrightarrow> k \<in> set (roots t)"
proof
  assume "depthIs t 0 k"
  then show "k \<in> set (roots t)"
    using wf by (cases rule: depthIs.cases) (auto simp add: wellFormedTree_def)
next
  assume "k \<in> set (roots t)"
  with wf obtain fs where "fullSpans t k = Some fs"
      "fullSpans t (ParentSpanID (span fs)) = None"
    by (auto simp add: wellFormedTree_def)
  then show "depthIs t 0 k" by (rule depthIs.depth_root)
qed

lemma depthIs_subtree:
  assumes wf: "wellFormedTree t" and x: "x \<in> subtree t k" and dk: "depthIs t d k"
  shows "\<exists>e. depthIs t e x"
proof -
  from x have "(k, x) \<in> (childRel t)\<^sup>*" by (simp add: subtree_def)
  then show ?thesis
  proof (induction rule: rtrancl_induct)
    case base
    from dk show ?case by blast
  next
    case (step y z)
    then obtain e where "depthIs t e y" by blast
    moreover from step.hyps(2) have "z \<in> set (childrenOf (children t) y)"
      by (simp add: childRel_def)
    ultimately have "depthIs t (Suc e) z" by (rule depthIs_children [OF wf])
    then show ?case by blast
  qed
qed

lemma depthIs_below_root:
  assumes wf: "wellFormedTree t"
  shows "depthIs t d k \<Longrightarrow> \<exists>r\<in>set (roots t). k \<in> subtree t r"
proof (induction rule: depthIs.induct)
  case (depth_root k fs)
  then have "depthIs t 0 k" by (auto intro: depthIs.depth_root)
  then have "k \<in> set (roots t)" by (simp add: depthIs_root_iff [OF wf])
  then show ?case using self_in_subtree by blast
next
  case (depth_child k fs d)
  then obtain r where r: "r \<in> set (roots t)" "ParentSpanID (span fs) \<in> subtree t r" by blast
  from wf depth_child.hyps(1) have "k \<in> set (childrenOf (children t) (ParentSpanID (span fs)))"
    unfolding wellFormedTree_def by blast
  then have "(ParentSpanID (span fs), k) \<in> childRel t" by (simp add: childRel_def)
  with r(2) have "k \<in> subtree t r" by (simp add: subtree_def)
  with r(1) show ?case by blast
qed

lemma below_root_iff_depthIs:
  assumes wf: "wellFormedTree t"
  shows "(\<exists>r\<in>set (roots t). x \<in> subtree t r) \<longleftrightarrow> (\<exists>d. depthIs t d x)"
proof
  assume "\<exists>r\<in>set (roots t). x \<in> subtree t r"
  then obtain r where "r \<in> set (roots t)" "x \<in> subtree t r" by blast
  then have "depthIs t 0 r" by (simp add: depthIs_root_iff [OF wf])
  from depthIs_subtree [OF wf \<open>x \<in> subtree t r\<close> this] show "\<exists>d. depthIs t d x" .
next
  assume "\<exists>d. depthIs t d x"
  then show "\<exists>r\<in>set (roots t). x \<in> subtree t r"
    using depthIs_below_root [OF wf] by blast
qed

lemma getScopeBranchesToUnsample_result:
  assumes wf: "wellFormedTree t" and fuel: "card (dom (fullSpans t)) \<le> fuel"
  shows "getScopeBranchesToUnsample fuel its t =
     Inr (\<lambda>x. if (\<exists>d. depthIs t d x) \<and> prunable its t x then Some True else None)"
proof -
  have calls: "getScopeBranchesToUnsampleRec fuel its t r m =
      Inr (prunable its t r, markSubtree its t r m)" if "r \<in> set (roots t)" for r m
  proof (rule getScopeBranchesToUnsampleRec_result [OF wf])
    from that show "depthIs t 0 r" by (simp add: depthIs_root_iff [OF wf])
    from fuel show "card (dom (fullSpans t)) \<le> 0 + fuel" by simp
  qed
  have "forRoots (getScopeBranchesToUnsampleRec fuel its t) (roots t) Map.empty =
      Inr (foldl (\<lambda>m c. markSubtree its t c m) Map.empty (roots t))"
    by (rule forRoots_result) (rule calls)
  then show ?thesis
    unfolding getScopeBranchesToUnsample_def foldl_markSubtree
      below_root_iff_depthIs [OF wf]
    by simp
qed


section \<open>The tree of a batch with unique span identities is well formed\<close>

lemma findRoots_filter:
  assumes "\<And>k fs. fulls k = Some fs \<Longrightarrow> SpanID (span fs) = k"
  shows "findRoots fulls ks =
     filter (\<lambda>k. \<exists>fs. fulls k = Some fs \<and> fulls (ParentSpanID (span fs)) = None) ks"
proof (induction ks)
  case Nil
  show ?case by (simp add: findRoots_def)
next
  case (Cons k ks)
  have "findRoots fulls (k # ks) =
     (case fulls k of None \<Rightarrow> []
      | Some fullspan \<Rightarrow>
          (case fulls (ParentSpanID (span fullspan)) of
             None \<Rightarrow> [SpanID (span fullspan)]
           | Some _ \<Rightarrow> [])) @ findRoots fulls ks"
    by (simp add: findRoots_def)
  then show ?case
    using Cons.IH assms by (cases "fulls k") (auto split: option.splits)
qed

lemma distinct_roots: "distinct (roots (spansToTraceTree td))"
proof -
  have "findRoots (fullSpans (spansToTraceTree td)) (rangeKeys (allFullSpans td)) =
      filter (\<lambda>k. \<exists>fs. fullSpans (spansToTraceTree td) k = Some fs \<and>
          fullSpans (spansToTraceTree td) (ParentSpanID (span fs)) = None)
        (rangeKeys (allFullSpans td))"
    by (rule findRoots_filter) (simp add: fullSpans_Some_in_batch)
  then show ?thesis
    by (simp add: roots_spansToTraceTree distinct_rangeKeys)
qed

lemma children_iff:
  assumes u: "uniqueSpanIDs td"
  shows "c \<in> set (childrenOf (children (spansToTraceTree td)) p) \<longleftrightarrow>
     (\<exists>fs. fullSpans (spansToTraceTree td) c = Some fs \<and> ParentSpanID (span fs) = p)"
proof
  assume "c \<in> set (childrenOf (children (spansToTraceTree td)) p)"
  then obtain fs where fs: "fs \<in> set (allFullSpans td)" "ParentSpanID (span fs) = p"
      "SpanID (span fs) = c"
    by (auto simp add: children_spansToTraceTree)
  from fullSpans_unique [OF u fs(1)] fs(2,3)
  show "\<exists>fs. fullSpans (spansToTraceTree td) c = Some fs \<and> ParentSpanID (span fs) = p"
    by auto
next
  assume "\<exists>fs. fullSpans (spansToTraceTree td) c = Some fs \<and> ParentSpanID (span fs) = p"
  then obtain fs where fs: "fullSpans (spansToTraceTree td) c = Some fs"
      "ParentSpanID (span fs) = p" by blast
  from fullSpans_Some_in_batch [OF fs(1)] fs(2)
  show "c \<in> set (childrenOf (children (spansToTraceTree td)) p)"
    by (auto simp add: children_spansToTraceTree)
qed

lemma distinct_children:
  assumes u: "uniqueSpanIDs td"
  shows "distinct (childrenOf (children (spansToTraceTree td)) p)"
  unfolding children_spansToTraceTree
  using u [unfolded uniqueSpanIDs_alt] by (rule distinct_map_filter)

lemma wellFormedTree_spansToTraceTree:
  assumes u: "uniqueSpanIDs td"
  shows "wellFormedTree (spansToTraceTree td)"
  unfolding wellFormedTree_def
proof (intro conjI allI impI)
  show "finite (dom (fullSpans (spansToTraceTree td)))"
    by (simp add: dom_fullSpans)
  show "SpanID (span fs) = k" if "fullSpans (spansToTraceTree td) k = Some fs" for k fs
    using fullSpans_Some_in_batch [OF that] by simp
  show "c \<in> set (childrenOf (children (spansToTraceTree td)) p) \<longleftrightarrow>
     (\<exists>fs. fullSpans (spansToTraceTree td) c = Some fs \<and> ParentSpanID (span fs) = p)" for p c
    by (rule children_iff [OF u])
  show "distinct (childrenOf (children (spansToTraceTree td)) p)" for p
    by (rule distinct_children [OF u])
  show "set (roots (spansToTraceTree td)) =
      {k. \<exists>fs. fullSpans (spansToTraceTree td) k = Some fs \<and>
            fullSpans (spansToTraceTree td) (ParentSpanID (span fs)) = None}"
    by (rule set_roots)
  show "distinct (roots (spansToTraceTree td))" by (rule distinct_roots)
qed

lemma card_keys_le: "card (dom (fullSpans (spansToTraceTree td))) \<le> length (allSpans td)"
proof -
  have "card (SpanID ` set (allSpans td)) \<le> card (set (allSpans td))"
    by (rule card_image_le) simp
  also have "\<dots> \<le> length (allSpans td)" by (rule card_length)
  finally show ?thesis by (simp add: dom_fullSpans)
qed

lemma find_unique:
  assumes u: "uniqueSpanIDs td"
  shows "find (\<lambda>s. SpanID s = k) (allSpans td) =
     map_option span (fullSpans (spansToTraceTree td) k)"
proof (cases "fullSpans (spansToTraceTree td) k")
  case None
  then have "k \<notin> SpanID ` set (allSpans td)" by (simp add: fullSpans_None_iff)
  then have "find (\<lambda>s. SpanID s = k) (allSpans td) = None"
    by (auto simp add: find_None_iff)
  with None show ?thesis by simp
next
  case (Some fs)
  from fullSpans_Some_in_batch [OF Some] have fs: "fs \<in> set (allFullSpans td)"
      "SpanID (span fs) = k" by simp_all
  have "\<exists>i<length (allSpans td). SpanID (allSpans td ! i) = k \<and> span fs = allSpans td ! i
      \<and> (\<forall>j<i. SpanID (allSpans td ! j) \<noteq> k)"
  proof -
    from fs(1) obtain i where i: "i < length (allFullSpans td)" "allFullSpans td ! i = fs"
      by (auto simp add: in_set_conv_nth)
    have "SpanID (allSpans td ! j) \<noteq> k" if "j < i" for j
    proof
      assume "SpanID (allSpans td ! j) = k"
      with fs(2) i that have "map SpanID (allSpans td) ! j = map SpanID (allSpans td) ! i"
        by (simp add: allSpans_def)
      moreover from u have "distinct (map SpanID (allSpans td))"
        by (simp add: uniqueSpanIDs_def)
      moreover from i(1) that have "j < length (map SpanID (allSpans td))"
          "i < length (map SpanID (allSpans td))"
        by (simp_all add: allSpans_def)
      ultimately have "j = i" by (simp only: nth_eq_iff_index_eq)
      with that show False by simp
    qed
    with i fs(2) show ?thesis by (auto simp add: allSpans_def)
  qed
  then have "find (\<lambda>s. SpanID s = k) (allSpans td) = Some (span fs)"
    unfolding find_Some_iff by blast
  with Some show ?thesis by simp
qed

lemma parentChainLeaves_depthIs:
  assumes u: "uniqueSpanIDs td"
  shows "parentChainLeaves n (allSpans td) k \<Longrightarrow>
     fullSpans (spansToTraceTree td) k = Some fs \<Longrightarrow>
     \<exists>d<n. depthIs (spansToTraceTree td) d k"
proof (induction n arbitrary: k fs)
  case 0
  then show ?case by (simp add: find_unique [OF u])
next
  case (Suc n)
  from Suc.prems have chain: "parentChainLeaves n (allSpans td) (ParentSpanID (span fs))"
    by (simp add: find_unique [OF u])
  show ?case
  proof (cases "fullSpans (spansToTraceTree td) (ParentSpanID (span fs))")
    case None
    with Suc.prems(2) have "depthIs (spansToTraceTree td) 0 k" by (rule depthIs.depth_root)
    then show ?thesis by blast
  next
    case (Some fs')
    from Suc.IH [OF chain Some] obtain d where d: "d < n"
        "depthIs (spansToTraceTree td) d (ParentSpanID (span fs))" by blast
    from Suc.prems(2) d(2) have "depthIs (spansToTraceTree td) (Suc d) k"
      by (rule depthIs.depth_child)
    with d(1) show ?thesis by auto
  qed
qed

lemma depthIs_parentChainLeaves:
  assumes u: "uniqueSpanIDs td"
  shows "depthIs (spansToTraceTree td) d k \<Longrightarrow> d < n \<Longrightarrow>
     parentChainLeaves n (allSpans td) k"
proof (induction arbitrary: n rule: depthIs.induct)
  case (depth_root k fs)
  then obtain n' where "n = Suc n'" by (cases n) auto
  with depth_root.hyps show ?case
    by (cases n') (simp_all add: find_unique [OF u])
next
  case (depth_child k fs d)
  then obtain n' where n: "n = Suc n'" "d < n'" by (cases n) auto
  from depth_child.IH [OF n(2)] depth_child.hyps(1) n(1) show ?case
    by (simp add: find_unique [OF u])
qed

lemma depthIs_iff_parentChainLeaves:
  assumes u: "uniqueSpanIDs td"
  shows "(\<exists>d. depthIs (spansToTraceTree td) d k) \<longleftrightarrow>
     k \<in> SpanID ` set (allSpans td) \<and>
     parentChainLeaves (length (allSpans td)) (allSpans td) k"
proof
  assume "\<exists>d. depthIs (spansToTraceTree td) d k"
  then obtain d where d: "depthIs (spansToTraceTree td) d k" by blast
  from wellFormedTree_spansToTraceTree [OF u]
  have "finite (dom (fullSpans (spansToTraceTree td)))" by (simp add: wellFormedTree_def)
  from depthIs_less_card [OF this d] card_keys_le [of td]
  have "d < length (allSpans td)" by simp
  with d have "parentChainLeaves (length (allSpans td)) (allSpans td) k"
    by (rule depthIs_parentChainLeaves [OF u])
  moreover from depthIs_key [OF d] have "k \<in> SpanID ` set (allSpans td)"
    using fullSpans_None_iff [of td k] by auto
  ultimately show "k \<in> SpanID ` set (allSpans td) \<and>
     parentChainLeaves (length (allSpans td)) (allSpans td) k" by simp
next
  assume a: "k \<in> SpanID ` set (allSpans td) \<and>
     parentChainLeaves (length (allSpans td)) (allSpans td) k"
  then obtain fs where "fullSpans (spansToTraceTree td) k = Some fs"
    using fullSpans_None_iff [of td k] by auto
  with a parentChainLeaves_depthIs [OF u] show "\<exists>d. depthIs (spansToTraceTree td) d k"
    by blast
qed

lemma acyclicParents_depthIs:
  assumes u: "uniqueSpanIDs td" and a: "acyclicParents td"
  shows "(\<exists>d. depthIs (spansToTraceTree td) d k) \<longleftrightarrow> k \<in> SpanID ` set (allSpans td)"
  using a unfolding depthIs_iff_parentChainLeaves [OF u] acyclicParents_def list_all_iff
  by auto

section \<open>What the evaluator marks\<close>

lemma getScopeBranchesToUnsample_unique:
  assumes u: "uniqueSpanIDs td" and fuel: "length (allSpans td) \<le> fuel"
  shows "getScopeBranchesToUnsample fuel its (spansToTraceTree td) =
     Inr (\<lambda>x. if (\<exists>d. depthIs (spansToTraceTree td) d x) \<and> prunable its (spansToTraceTree td) x
              then Some True else None)"
proof (rule getScopeBranchesToUnsample_result)
  show "wellFormedTree (spansToTraceTree td)" by (rule wellFormedTree_spansToTraceTree [OF u])
  from card_keys_le [of td] fuel show "card (dom (fullSpans (spansToTraceTree td))) \<le> fuel"
    by simp
qed

lemma processTraces_pruning_path:
  assumes "getSingleTraceId td = Some tid" and "\<not> sampled hash its tid"
    and "getScopeBranchesToUnsample fuel its (spansToTraceTree td) = Inr m"
  shows "processTraces fuel hash its td =
     Inr (if dom m = {} then (td, [])
          else (removeSpansByIds td m, [DebugUnsampling (card (dom m))]))"
proof -
  have "card (dom m) = 0 \<longleftrightarrow> dom m = {}"
  proof
    assume c: "card (dom m) = 0"
    have "finite (dom m)" by simp
    with c show "dom m = {}" by simp
  qed simp
  with assms show ?thesis by (simp add: processTraces_def)
qed

text \<open>
  C1. For a single-trace batch that the sampling decision does not accept, with unique
  span identities and acyclic parent references, the to-remove map holds exactly the
  identities of the spans whose own scope name and the scope names of all spans of their
  subtree are scope leaves, each with the value true; a span without children is marked
  exactly when its own scope name is a scope leaf; and the processor removes exactly
  the marked spans.
\<close>

theorem unsampled_iff_subtree_in_ScopeLeaves:
  assumes "getSingleTraceId td = Some tid" and "\<not> sampled hash its tid"
    and "uniqueSpanIDs td" and "acyclicParents td" and "length (allSpans td) \<le> fuel"
  shows "\<exists>m. getScopeBranchesToUnsample fuel its (spansToTraceTree td) = Inr m
     \<and> m = (\<lambda>k. if k \<in> SpanID ` set (allSpans td) \<and> prunable its (spansToTraceTree td) k
               then Some True else None)
     \<and> (\<forall>fs\<in>set (allFullSpans td).
           lookupBool m (SpanID (span fs)) \<longleftrightarrow>
             (\<forall>g\<in>set (allFullSpans td).
                 SpanID (span g) \<in> subtree (spansToTraceTree td) (SpanID (span fs)) \<longrightarrow>
                 ScopeName (scope g) \<in> set (ScopeLeaves (config its))))
     \<and> (\<forall>fs\<in>set (allFullSpans td).
           childrenOf (children (spansToTraceTree td)) (SpanID (span fs)) = [] \<longrightarrow>
           (lookupBool m (SpanID (span fs)) \<longleftrightarrow>
              ScopeName (scope fs) \<in> set (ScopeLeaves (config its))))
     \<and> processTraces fuel hash its td =
          Inr (if dom m = {} then (td, [])
               else (removeSpansByIds td m, [DebugUnsampling (card (dom m))]))"
proof -
  let ?t = "spansToTraceTree td"
  let ?m = "\<lambda>k. if k \<in> SpanID ` set (allSpans td) \<and> prunable its ?t k then Some True else None"
  note u = assms(3)
  have eval: "getScopeBranchesToUnsample fuel its ?t = Inr ?m"
    unfolding getScopeBranchesToUnsample_unique [OF u assms(5)]
      acyclicParents_depthIs [OF u assms(4)] by simp
  have stored: "fullSpans ?t (SpanID (span fs)) = Some fs" if "fs \<in> set (allFullSpans td)" for fs
    by (rule fullSpans_unique [OF u that])
  have pr: "prunable its ?t k \<longleftrightarrow>
      (\<forall>g\<in>set (allFullSpans td). SpanID (span g) \<in> subtree ?t k \<longrightarrow>
          ScopeName (scope g) \<in> set (ScopeLeaves (config its)))" for k
  proof
    assume p: "prunable its ?t k"
    show "\<forall>g\<in>set (allFullSpans td). SpanID (span g) \<in> subtree ?t k \<longrightarrow>
          ScopeName (scope g) \<in> set (ScopeLeaves (config its))"
    proof (intro ballI impI)
      fix g assume "g \<in> set (allFullSpans td)" "SpanID (span g) \<in> subtree ?t k"
      with p stored [of g] show "ScopeName (scope g) \<in> set (ScopeLeaves (config its))"
        unfolding prunable_def by blast
    qed
  next
    assume a: "\<forall>g\<in>set (allFullSpans td). SpanID (span g) \<in> subtree ?t k \<longrightarrow>
          ScopeName (scope g) \<in> set (ScopeLeaves (config its))"
    show "prunable its ?t k"
      unfolding prunable_def
    proof (intro ballI allI impI)
      fix d fs assume "d \<in> subtree ?t k" "fullSpans ?t d = Some fs"
      with fullSpans_Some_in_batch [of td d fs] a
      show "ScopeName (scope fs) \<in> set (ScopeLeaves (config its))" by auto
    qed
  qed
  have inb: "SpanID (span fs) \<in> SpanID ` set (allSpans td)" if "fs \<in> set (allFullSpans td)" for fs
    using that by (auto simp add: allSpans_def)
  have c3: "\<forall>fs\<in>set (allFullSpans td).
           lookupBool ?m (SpanID (span fs)) \<longleftrightarrow>
             (\<forall>g\<in>set (allFullSpans td).
                 SpanID (span g) \<in> subtree ?t (SpanID (span fs)) \<longrightarrow>
                 ScopeName (scope g) \<in> set (ScopeLeaves (config its)))"
    using inb pr by (simp add: lookupBool_def)
  have c4: "\<forall>fs\<in>set (allFullSpans td).
           childrenOf (children ?t) (SpanID (span fs)) = [] \<longrightarrow>
           (lookupBool ?m (SpanID (span fs)) \<longleftrightarrow>
              ScopeName (scope fs) \<in> set (ScopeLeaves (config its)))"
  proof (intro ballI impI)
    fix fs assume fs: "fs \<in> set (allFullSpans td)"
      and leaf: "childrenOf (children ?t) (SpanID (span fs)) = []"
    from prunable_unfold [of its ?t "SpanID (span fs)"] stored [OF fs] leaf
    have "prunable its ?t (SpanID (span fs)) \<longleftrightarrow>
        ScopeName (scope fs) \<in> set (ScopeLeaves (config its))" by simp
    with inb [OF fs] show "lookupBool ?m (SpanID (span fs)) \<longleftrightarrow>
        ScopeName (scope fs) \<in> set (ScopeLeaves (config its))"
      by (simp add: lookupBool_def)
  qed
  from processTraces_pruning_path [OF assms(1,2) eval] eval c3 c4
  show ?thesis by blast
qed

lemmas eval_defs = tree_defs flatten_defs example_defs getScopeBranchesToUnsample_def
  getSingleTraceId_def sampled_def uniqueSpanIDs_def acyclicParents_def

lemma chainAAB_hyps:
  "getSingleTraceId chainAAB = Some 1" "\<not> sampled hash0 itsA 1" "uniqueSpanIDs chainAAB"
  "acyclicParents chainAAB" "length (allSpans chainAAB) \<le> 3"
  by (simp_all add: chainAAB_def eval_defs)

lemma chainAAA_hyps:
  "getSingleTraceId chainAAA = Some 1" "\<not> sampled hash0 itsA 1" "uniqueSpanIDs chainAAA"
  "acyclicParents chainAAA" "length (allSpans chainAAA) \<le> 3"
  by (simp_all add: chainAAA_def eval_defs)

lemma chainAAB_marks:
  "getScopeBranchesToUnsample 3 itsA (spansToTraceTree chainAAB) = Inr Map.empty"
  by (simp add: chainAAB_def eval_defs numeral_3_eq_3)

lemma chainAAA_marks:
  "getScopeBranchesToUnsample 3 itsA (spansToTraceTree chainAAA) =
     Inr [3 \<mapsto> True, 2 \<mapsto> True, 1 \<mapsto> True]"
  by (simp add: chainAAA_def eval_defs numeral_3_eq_3)

theorem unsampled_iff_subtree_in_ScopeLeaves_witness:
  "getSingleTraceId chainAAB = Some 1 \<and> \<not> sampled hash0 itsA 1 \<and> uniqueSpanIDs chainAAB
   \<and> acyclicParents chainAAB
   \<and> getScopeBranchesToUnsample 3 itsA (spansToTraceTree chainAAB) = Inr Map.empty
   \<and> \<not> prunable itsA (spansToTraceTree chainAAB) 1
   \<and> processTraces 3 hash0 itsA chainAAB = Inr (chainAAB, [])
   \<and> getSingleTraceId chainAAA = Some 1 \<and> uniqueSpanIDs chainAAA \<and> acyclicParents chainAAA
   \<and> getScopeBranchesToUnsample 3 itsA (spansToTraceTree chainAAA) =
        Inr [3 \<mapsto> True, 2 \<mapsto> True, 1 \<mapsto> True]
   \<and> prunable itsA (spansToTraceTree chainAAA) 1
   \<and> processTraces 3 hash0 itsA chainAAA = Inr ([], [DebugUnsampling 3])"
proof -
  from unsampled_iff_subtree_in_ScopeLeaves [OF chainAAB_hyps]
  obtain mb where mb: "getScopeBranchesToUnsample 3 itsA (spansToTraceTree chainAAB) = Inr mb"
      "mb = (\<lambda>k. if k \<in> SpanID ` set (allSpans chainAAB) \<and>
          prunable itsA (spansToTraceTree chainAAB) k then Some True else None)"
      "processTraces 3 hash0 itsA chainAAB =
         Inr (if dom mb = {} then (chainAAB, [])
              else (removeSpansByIds chainAAB mb, [DebugUnsampling (card (dom mb))]))"
    by blast
  from mb(1) chainAAB_marks have mbe: "mb = Map.empty" by simp
  from mb(3) have pb: "processTraces 3 hash0 itsA chainAAB = Inr (chainAAB, [])"
    unfolding mbe by simp
  have "1 \<in> SpanID ` set (allSpans chainAAB)"
    by (simp add: chainAAB_def flatten_defs example_defs)
  with fun_cong [OF mb(2), of 1] have nb: "\<not> prunable itsA (spansToTraceTree chainAAB) 1"
    unfolding mbe by (simp split: if_splits)
  from unsampled_iff_subtree_in_ScopeLeaves [OF chainAAA_hyps]
  obtain ma where ma: "getScopeBranchesToUnsample 3 itsA (spansToTraceTree chainAAA) = Inr ma"
      "ma = (\<lambda>k. if k \<in> SpanID ` set (allSpans chainAAA) \<and>
          prunable itsA (spansToTraceTree chainAAA) k then Some True else None)"
      "processTraces 3 hash0 itsA chainAAA =
         Inr (if dom ma = {} then (chainAAA, [])
              else (removeSpansByIds chainAAA ma, [DebugUnsampling (card (dom ma))]))"
    by blast
  from ma(1) chainAAA_marks have mae: "ma = [3 \<mapsto> True, 2 \<mapsto> True, 1 \<mapsto> True]" by simp
  have "removeSpansByIds chainAAA [3 \<mapsto> True, 2 \<mapsto> True, 1 \<mapsto> True] = []"
    by (simp add: chainAAA_def example_defs removeSpansByIds_eq kept_defs)
  with ma(3) have pa: "processTraces 3 hash0 itsA chainAAA = Inr ([], [DebugUnsampling 3])"
    unfolding mae by simp
  from fun_cong [OF ma(2), of 1] have na: "prunable itsA (spansToTraceTree chainAAA) 1"
    unfolding mae by (simp split: if_splits)
  from chainAAB_hyps chainAAA_hyps chainAAB_marks chainAAA_marks nb na pb pa
  show ?thesis by simp
qed

section \<open>Spans of other scopes are kept\<close>

lemma marked_scope_in_ScopeLeaves:
  assumes u: "uniqueSpanIDs td" and fs: "fs \<in> set (allFullSpans td)"
    and p: "prunable its (spansToTraceTree td) (SpanID (span fs))"
  shows "ScopeName (scope fs) \<in> set (ScopeLeaves (config its))"
  using prunable_unfold [of its "spansToTraceTree td" "SpanID (span fs)"] p
    fullSpans_unique [OF u fs]
  by simp

lemma processTraces_cases:
  assumes "getScopeBranchesToUnsample fuel its (spansToTraceTree td) = Inr m"
  shows "processTraces fuel hash its td = Inr (td, [WarnDifferentTraces])
     \<or> processTraces fuel hash its td = Inr (td, [])
     \<or> (processTraces fuel hash its td =
          Inr (keptResourceSpans m td, [DebugUnsampling (card (dom m))]) \<and>
        (\<exists>tid. getSingleTraceId td = Some tid \<and> \<not> sampled hash its tid))"
  using assms by (simp add: processTraces_def removeSpansByIds_eq split: option.splits)

text \<open>
  C10, as stated, fails for a batch in which two spans share an identity: the map keeps
  the later span, its scope decides, and the removal by identity takes both spans. Here
  the span under scope \<open>keep\<close>, which is no scope leaf, is removed with its namesake
  under scope \<open>A\<close>.
\<close>

theorem processTraces_duplicate_identity_removes_other_scope:
  "\<lparr>resource = [], scope = \<lparr>ScopeName = ''keep'', ScopeVersion = ''''\<rparr>, span = mkSpan 1 0 1\<rparr>
      \<in> set (allFullSpans duplicateIDs)
   \<and> ''keep'' \<notin> set (ScopeLeaves (config itsA))
   \<and> processTraces 1 hash0 itsA duplicateIDs = Inr ([], [DebugUnsampling 1])"
  by (simp add: duplicateIDs_def eval_defs processTraces_def removeSpansByIds_eq kept_defs)

text \<open>
  C10, amended. For a batch with unique span identities and every configuration, the
  processor returns a batch in which every span whose scope name is no scope leaf is
  present, under its resource and scope; the spans of the output are spans of the input,
  unchanged and in the input's order, each under its resource and scope; and the output
  is the input or the input after removal and collapse of emptied groupings.
\<close>

theorem processTraces_keeps_other_scopes:
  assumes "uniqueSpanIDs td" and "length (allSpans td) \<le> fuel"
  shows "\<exists>out logs. processTraces fuel hash its td = Inr (out, logs)
     \<and> (\<forall>fs\<in>set (allFullSpans td).
           ScopeName (scope fs) \<notin> set (ScopeLeaves (config its)) \<longrightarrow>
           fs \<in> set (allFullSpans out))
     \<and> (\<exists>ids. allFullSpans out =
           filter (\<lambda>fs. \<not> lookupBool ids (SpanID (span fs))) (allFullSpans td))
     \<and> (out = td \<or> (\<exists>ids. out = keptResourceSpans ids td))"
proof -
  let ?t = "spansToTraceTree td"
  let ?m = "\<lambda>x. if (\<exists>d. depthIs ?t d x) \<and> prunable its ?t x then Some True else None"
  have eval: "getScopeBranchesToUnsample fuel its ?t = Inr ?m"
    by (rule getScopeBranchesToUnsample_unique [OF assms])
  have kept: "fs \<in> set (allFullSpans (keptResourceSpans ?m td))"
    if "fs \<in> set (allFullSpans td)"
       "ScopeName (scope fs) \<notin> set (ScopeLeaves (config its))" for fs
  proof -
    from marked_scope_in_ScopeLeaves [OF assms(1) that(1)] that(2)
    have "\<not> prunable its ?t (SpanID (span fs))" by blast
    then have "\<not> lookupBool ?m (SpanID (span fs))" by (simp add: lookupBool_def)
    with that(1) show ?thesis by (simp add: allFullSpans_kept)
  qed
  have same: "allFullSpans td =
      filter (\<lambda>fs. \<not> lookupBool Map.empty (SpanID (span fs))) (allFullSpans td)"
    by (simp add: lookupBool_def)
  from processTraces_cases [OF eval, of hash]
  consider "processTraces fuel hash its td = Inr (td, [WarnDifferentTraces])"
    | "processTraces fuel hash its td = Inr (td, [])"
    | "processTraces fuel hash its td =
          Inr (keptResourceSpans ?m td, [DebugUnsampling (card (dom ?m))])"
    by blast
  then show ?thesis
  proof cases
    case 1
    with same show ?thesis by blast
  next
    case 2
    with same show ?thesis by blast
  next
    case 3
    have "\<exists>ids. allFullSpans (keptResourceSpans ?m td) =
           filter (\<lambda>fs. \<not> lookupBool ids (SpanID (span fs))) (allFullSpans td)"
      using allFullSpans_kept [of ?m td] by blast
    with 3 kept show ?thesis by blast
  qed
qed

theorem processTraces_keeps_other_scopes_witness:
  "uniqueSpanIDs chainAAB
   \<and> (\<exists>out logs. processTraces 3 hash0 itsA chainAAB = Inr (out, logs)
        \<and> \<lparr>resource = [], scope = \<lparr>ScopeName = ''B'', ScopeVersion = ''''\<rparr>,
             span = mkSpan 3 2 1\<rparr> \<in> set (allFullSpans out))"
proof -
  have "\<lparr>resource = [], scope = \<lparr>ScopeName = ''B'', ScopeVersion = ''''\<rparr>,
         span = mkSpan 3 2 1\<rparr> \<in> set (allFullSpans chainAAB)"
    and "ScopeName (scope \<lparr>resource = [], scope = \<lparr>ScopeName = ''B'', ScopeVersion = ''''\<rparr>,
         span = mkSpan 3 2 1\<rparr>) \<notin> set (ScopeLeaves (config itsA))"
    by (simp_all add: chainAAB_def flatten_defs example_defs)
  with processTraces_keeps_other_scopes [OF chainAAB_hyps(3) chainAAB_hyps(5), of hash0 itsA]
    chainAAB_hyps(3)
  show ?thesis by blast
qed

section \<open>The evaluator terminates and visits a span at most once\<close>

lemma depthIs_reached:
  assumes wf: "wellFormedTree t" and dk: "depthIs t d k"
  shows "(k, x) \<in> (childRel t)\<^sup>* \<Longrightarrow> \<exists>e\<ge>d. depthIs t e x"
proof (induction rule: rtrancl_induct)
  case base
  from dk show ?case by blast
next
  case (step y z)
  then obtain e where e: "d \<le> e" "depthIs t e y" by blast
  from step.hyps(2) have "z \<in> set (childrenOf (children t) y)" by (simp add: childRel_def)
  with e(2) have "depthIs t (Suc e) z" by (rule depthIs_children [OF wf])
  with e(1) show ?case by (metis le_Suc_eq)
qed

lemma depthIs_reached_strict:
  assumes wf: "wellFormedTree t" and dk: "depthIs t d k" and r: "(k, x) \<in> (childRel t)\<^sup>+"
  shows "\<exists>e>d. depthIs t e x"
proof -
  from r obtain y where y: "(k, y) \<in> childRel t" "(y, x) \<in> (childRel t)\<^sup>*"
    by (blast dest: tranclD)
  from y(1) have "y \<in> set (childrenOf (children t) k)" by (simp add: childRel_def)
  with dk have "depthIs t (Suc d) y" by (rule depthIs_children [OF wf])
  from depthIs_reached [OF wf this y(2)] show ?thesis by (metis Suc_le_eq)
qed

lemma parent_unique:
  assumes wf: "wellFormedTree t" and "(y, z) \<in> childRel t" and "(y', z) \<in> childRel t"
  shows "y = y'"
proof -
  from assms(2) wf obtain fs where "fullSpans t z = Some fs" "ParentSpanID (span fs) = y"
    unfolding wellFormedTree_def childRel_def by blast
  moreover from assms(3) wf obtain fs' where "fullSpans t z = Some fs'"
      "ParentSpanID (span fs') = y'"
    unfolding wellFormedTree_def childRel_def by blast
  ultimately show ?thesis by simp
qed

lemma subtrees_disjoint:
  assumes wf: "wellFormedTree t" and dc: "depthIs t d c" and dc': "depthIs t d c'"
  shows "(c, x) \<in> (childRel t)\<^sup>* \<Longrightarrow> (c', x) \<in> (childRel t)\<^sup>* \<Longrightarrow> c = c'"
proof (induction rule: rtrancl_induct)
  case base
  show ?case
  proof (rule ccontr)
    assume "c \<noteq> c'"
    with base have "(c', c) \<in> (childRel t)\<^sup>+" by (metis rtranclD)
    from depthIs_reached_strict [OF wf dc' this] obtain e where "d < e" "depthIs t e c"
      by blast
    with dc depthIs_unique show False by blast
  qed
next
  case (step y z)
  from depthIs_reached [OF wf dc step.hyps(1)] obtain e where e: "d \<le> e" "depthIs t e y"
    by blast
  from step.hyps(2) have "z \<in> set (childrenOf (children t) y)" by (simp add: childRel_def)
  with e(2) have dz: "depthIs t (Suc e) z" by (rule depthIs_children [OF wf])
  from step.prems show ?case
  proof (cases rule: rtranclE)
    case base
    with dc' dz e(1) depthIs_unique [of t d z "Suc e"] show ?thesis by simp
  next
    case (step y')
    from parent_unique [OF wf step(2) \<open>(y, z) \<in> childRel t\<close>] have "y' = y" .
    with step(1) show ?thesis by (simp add: step.IH)
  qed
qed

lemma visitsChildren_result:
  assumes "\<And>c. c \<in> set cs \<Longrightarrow> \<exists>vs. call c = Inr vs \<and> set vs = S c \<and> distinct vs"
    and "distinct cs"
    and "\<And>c c'. c \<in> set cs \<Longrightarrow> c' \<in> set cs \<Longrightarrow> c \<noteq> c' \<Longrightarrow> S c \<inter> S c' = {}"
  shows "\<exists>vs. visitsChildren call cs = Inr vs \<and> set vs = (\<Union>c\<in>set cs. S c) \<and> distinct vs"
  using assms
proof (induction cs)
  case Nil
  then show ?case by simp
next
  case (Cons c cs)
  from Cons.prems(1) [of c] obtain v where v: "call c = Inr v" "set v = S c" "distinct v"
    by auto
  have "\<exists>vs. visitsChildren call cs = Inr vs \<and> set vs = (\<Union>c\<in>set cs. S c) \<and> distinct vs"
  proof (rule Cons.IH)
    show "\<exists>vs. call c' = Inr vs \<and> set vs = S c' \<and> distinct vs" if "c' \<in> set cs" for c'
      using Cons.prems(1) [of c'] that by simp
    from Cons.prems(2) show "distinct cs" by simp
    show "S a \<inter> S b = {}" if "a \<in> set cs" "b \<in> set cs" "a \<noteq> b" for a b
      using Cons.prems(3) [of a b] that by simp
  qed
  then obtain w where w: "visitsChildren call cs = Inr w" "set w = (\<Union>c\<in>set cs. S c)"
      "distinct w" by blast
  have "S c \<inter> S c' = {}" if "c' \<in> set cs" for c'
  proof (rule Cons.prems(3))
    from that Cons.prems(2) show "c \<noteq> c'" by auto
  qed (use that in simp_all)
  then have "set v \<inter> set w = {}" unfolding v(2) w(2) by blast
  with v w show ?case by simp
qed

lemma visitsRec_result:
  assumes wf: "wellFormedTree t"
  shows "depthIs t d k \<Longrightarrow> card (dom (fullSpans t)) \<le> d + n \<Longrightarrow>
     \<exists>vs. visitsRec n t k = Inr vs \<and> set vs = subtree t k \<and> distinct vs"
proof (induction n arbitrary: d k)
  case 0
  from wf have "finite (dom (fullSpans t))" by (simp add: wellFormedTree_def)
  from depthIs_less_card [OF this "0.prems"(1)] "0.prems"(2) show ?case by simp
next
  case (Suc n)
  from depthIs_key [OF Suc.prems(1)] obtain fs where fs: "fullSpans t k = Some fs" by blast
  let ?cs = "childrenOf (children t) k"
  have dc: "depthIs t (Suc d) c" if "c \<in> set ?cs" for c
    by (rule depthIs_children [OF wf Suc.prems(1) that])
  have "\<exists>vs. visitsChildren (visitsRec n t) ?cs = Inr vs \<and>
      set vs = (\<Union>c\<in>set ?cs. subtree t c) \<and> distinct vs"
  proof (rule visitsChildren_result)
    show "\<exists>vs. visitsRec n t c = Inr vs \<and> set vs = subtree t c \<and> distinct vs"
      if "c \<in> set ?cs" for c
    proof (rule Suc.IH)
      show "depthIs t (Suc d) c" by (rule dc [OF that])
      show "card (dom (fullSpans t)) \<le> Suc d + n" using Suc.prems(2) by simp
    qed
    from wf show "distinct ?cs" by (simp add: wellFormedTree_def)
    show "subtree t c \<inter> subtree t c' = {}"
      if "c \<in> set ?cs" "c' \<in> set ?cs" "c \<noteq> c'" for c c'
      using subtrees_disjoint [OF wf dc [OF that(1)] dc [OF that(2)]] that(3)
      by (auto simp add: subtree_def)
  qed
  then obtain v where v: "visitsChildren (visitsRec n t) ?cs = Inr v"
      "set v = (\<Union>c\<in>set ?cs. subtree t c)" "distinct v" by blast
  have "k \<notin> set v"
  proof
    assume "k \<in> set v"
    with v(2) obtain c where c: "c \<in> set ?cs" "(c, k) \<in> (childRel t)\<^sup>*"
      by (auto simp add: subtree_def)
    from depthIs_reached [OF wf dc [OF c(1)] c(2)] obtain e where "Suc d \<le> e" "depthIs t e k"
      by blast
    with Suc.prems(1) depthIs_unique [of t d k e] show False by simp
  qed
  with v fs show ?case
    by (simp add: subtree_unfold [of t k])
qed

lemma visits_result:
  assumes wf: "wellFormedTree t" and fuel: "card (dom (fullSpans t)) \<le> fuel"
  shows "\<exists>vs. visits fuel t = Inr vs \<and> set vs = {x. \<exists>d. depthIs t d x} \<and> distinct vs"
proof -
  have dr: "depthIs t 0 r" if "r \<in> set (roots t)" for r
    using that by (simp add: depthIs_root_iff [OF wf])
  have "\<exists>vs. visitsChildren (visitsRec fuel t) (roots t) = Inr vs \<and>
      set vs = (\<Union>r\<in>set (roots t). subtree t r) \<and> distinct vs"
  proof (rule visitsChildren_result)
    show "\<exists>vs. visitsRec fuel t r = Inr vs \<and> set vs = subtree t r \<and> distinct vs"
      if "r \<in> set (roots t)" for r
    proof (rule visitsRec_result [OF wf])
      show "depthIs t 0 r" by (rule dr [OF that])
      from fuel show "card (dom (fullSpans t)) \<le> 0 + fuel" by simp
    qed
    from wf show "distinct (roots t)" by (simp add: wellFormedTree_def)
    show "subtree t r \<inter> subtree t r' = {}"
      if "r \<in> set (roots t)" "r' \<in> set (roots t)" "r \<noteq> r'" for r r'
      using subtrees_disjoint [OF wf dr [OF that(1)] dr [OF that(2)]] that(3)
      by (auto simp add: subtree_def)
  qed
  moreover have "(\<Union>r\<in>set (roots t). subtree t r) = {x. \<exists>d. depthIs t d x}"
    using below_root_iff_depthIs [OF wf] by auto
  ultimately show ?thesis by (simp add: visits_def)
qed

text \<open>
  C7, as stated, fails on a batch with a cycle of parent references: the spans of the
  cycle have their parents in the batch, so none of them is a root, and the evaluator,
  which starts from the roots, never visits them. Here spans 2 and 3 are each other's
  parent: the evaluator returns, having visited span 1 only.
\<close>

theorem cycle_is_never_visited:
  "uniqueSpanIDs cycleBatch
   \<and> SpanID ` set (allSpans cycleBatch) = {1, 2, 3}
   \<and> visits 3 (spansToTraceTree cycleBatch) = Inr [1]
   \<and> getScopeBranchesToUnsample 3 itsA (spansToTraceTree cycleBatch) = Inr [1 \<mapsto> True]"
  by (simp add: cycleBatch_def eval_defs visits_def numeral_3_eq_3)

text \<open>
  C7, amended. For a batch with unique span identities, with or without cycles of parent
  references, the evaluator returns once the fuel for the depth of the recursion is the
  number of spans; it visits no span twice, and it visits exactly the spans whose chain of
  parents leaves the batch: all of them when the parent references are acyclic, and none
  of those on a cycle or below one.
\<close>

theorem evaluator_terminates:
  assumes "uniqueSpanIDs td" and "length (allSpans td) \<le> fuel"
  shows "\<exists>m vs. getScopeBranchesToUnsample fuel its (spansToTraceTree td) = Inr m
     \<and> visits fuel (spansToTraceTree td) = Inr vs
     \<and> distinct vs
     \<and> set vs = {k \<in> SpanID ` set (allSpans td).
                   parentChainLeaves (length (allSpans td)) (allSpans td) k}
     \<and> (acyclicParents td \<longrightarrow> set vs = SpanID ` set (allSpans td))"
proof -
  let ?t = "spansToTraceTree td"
  note wf = wellFormedTree_spansToTraceTree [OF assms(1)]
  from card_keys_le [of td] assms(2) have fuel: "card (dom (fullSpans ?t)) \<le> fuel" by simp
  from visits_result [OF wf fuel] obtain vs where vs: "visits fuel ?t = Inr vs"
      "set vs = {x. \<exists>d. depthIs ?t d x}" "distinct vs" by blast
  have s: "set vs = {k \<in> SpanID ` set (allSpans td).
                   parentChainLeaves (length (allSpans td)) (allSpans td) k}"
    unfolding vs(2) using depthIs_iff_parentChainLeaves [OF assms(1)] by blast
  have a: "set vs = SpanID ` set (allSpans td)" if "acyclicParents td"
    unfolding vs(2) using acyclicParents_depthIs [OF assms(1) that] by blast
  from getScopeBranchesToUnsample_unique [OF assms] vs(1,3) s a show ?thesis by blast
qed

theorem evaluator_terminates_witness:
  "uniqueSpanIDs cycleBatch
   \<and> (\<exists>m vs. getScopeBranchesToUnsample 3 itsA (spansToTraceTree cycleBatch) = Inr m
        \<and> visits 3 (spansToTraceTree cycleBatch) = Inr vs \<and> distinct vs \<and> set vs = {1})"
proof -
  have u: "uniqueSpanIDs cycleBatch" and l: "length (allSpans cycleBatch) \<le> 3"
    by (simp_all add: cycleBatch_def eval_defs)
  have "{k \<in> SpanID ` set (allSpans cycleBatch).
          parentChainLeaves (length (allSpans cycleBatch)) (allSpans cycleBatch) k} = {1}"
    by (auto simp add: cycleBatch_def flatten_defs example_defs)
  with evaluator_terminates [OF u l, of itsA] u show ?thesis by auto
qed

section \<open>A second pass removes nothing\<close>

lemma uniqueSpanIDs_kept: "uniqueSpanIDs td \<Longrightarrow> uniqueSpanIDs (keptResourceSpans m td)"
  unfolding uniqueSpanIDs_alt allFullSpans_kept by (rule distinct_map_filter)

lemma length_allSpans_kept: "length (allSpans (keptResourceSpans m td)) \<le> length (allSpans td)"
  by (simp add: allSpans_kept)

lemma fullSpans_kept:
  assumes u: "uniqueSpanIDs td"
  shows "fullSpans (spansToTraceTree (keptResourceSpans m td)) k = Some fs \<longleftrightarrow>
     fullSpans (spansToTraceTree td) k = Some fs \<and> \<not> lookupBool m k"
proof
  assume "fullSpans (spansToTraceTree (keptResourceSpans m td)) k = Some fs"
  from fullSpans_Some_in_batch [OF this]
  have fs: "fs \<in> set (allFullSpans td)" "\<not> lookupBool m (SpanID (span fs))" "SpanID (span fs) = k"
    by (auto simp add: allFullSpans_kept)
  from fullSpans_unique [OF u fs(1)] fs(2,3)
  show "fullSpans (spansToTraceTree td) k = Some fs \<and> \<not> lookupBool m k" by simp
next
  assume a: "fullSpans (spansToTraceTree td) k = Some fs \<and> \<not> lookupBool m k"
  with fullSpans_Some_in_batch [of td k fs]
  have fs: "fs \<in> set (allFullSpans (keptResourceSpans m td))" "SpanID (span fs) = k"
    by (simp_all add: allFullSpans_kept)
  from fullSpans_unique [OF uniqueSpanIDs_kept [OF u] fs(1)] fs(2)
  show "fullSpans (spansToTraceTree (keptResourceSpans m td)) k = Some fs" by simp
qed

lemma fullSpans_kept_None:
  assumes u: "uniqueSpanIDs td"
  shows "fullSpans (spansToTraceTree (keptResourceSpans m td)) k = None \<longleftrightarrow>
     fullSpans (spansToTraceTree td) k = None \<or> lookupBool m k"
proof (cases "fullSpans (spansToTraceTree (keptResourceSpans m td)) k")
  case None
  with fullSpans_kept [OF u, of m k] show ?thesis
    by (cases "fullSpans (spansToTraceTree td) k") auto
next
  case (Some fs)
  with fullSpans_kept [OF u, of m k fs] show ?thesis by simp
qed

lemma childRel_kept:
  assumes u: "uniqueSpanIDs td"
  shows "(p, c) \<in> childRel (spansToTraceTree (keptResourceSpans m td)) \<longleftrightarrow>
     (p, c) \<in> childRel (spansToTraceTree td) \<and> \<not> lookupBool m c"
  unfolding childRel_def
  using children_iff [OF u, of c p] children_iff [OF uniqueSpanIDs_kept [OF u], of c m p]
    fullSpans_kept [OF u, of m c]
  by auto

lemma prunable_down:
  assumes "prunable its t z" and "(z, y) \<in> (childRel t)\<^sup>*"
  shows "prunable its t y"
  unfolding prunable_def subtree_def
proof (intro ballI allI impI)
  fix d fs assume "d \<in> {d. (y, d) \<in> (childRel t)\<^sup>*}" "fullSpans t d = Some fs"
  with assms(2) have "d \<in> subtree t z" by (simp add: subtree_def)
  with assms(1) \<open>fullSpans t d = Some fs\<close>
  show "ScopeName (scope fs) \<in> set (ScopeLeaves (config its))"
    unfolding prunable_def by blast
qed

text \<open>
  In this section \<open>m\<close> is the map the first pass computes: the keys that lie below a
  root and are prunable.
\<close>

lemma path_kept:
  assumes u: "uniqueSpanIDs td"
    and m: "\<And>k. lookupBool m k \<Longrightarrow> prunable its (spansToTraceTree td) k"
    and ny: "\<not> prunable its (spansToTraceTree td) y"
  shows "(x, y) \<in> (childRel (spansToTraceTree td))\<^sup>* \<Longrightarrow>
     (x, y) \<in> (childRel (spansToTraceTree (keptResourceSpans m td)))\<^sup>*"
proof (induction rule: converse_rtrancl_induct)
  case base
  show ?case by simp
next
  case (step x z)
  have "\<not> prunable its (spansToTraceTree td) z"
    using prunable_down [OF _ step.hyps(2)] ny by blast
  with m have "\<not> lookupBool m z" by blast
  with step.hyps(1) have "(x, z) \<in> childRel (spansToTraceTree (keptResourceSpans m td))"
    by (simp add: childRel_kept [OF u])
  then show ?case using step.IH by (rule converse_rtrancl_into_rtrancl)
qed

lemma prunable_kept:
  assumes u: "uniqueSpanIDs td"
    and m: "\<And>k. lookupBool m k \<Longrightarrow> prunable its (spansToTraceTree td) k"
    and p: "prunable its (spansToTraceTree (keptResourceSpans m td)) x"
  shows "prunable its (spansToTraceTree td) x"
proof (rule ccontr)
  let ?t = "spansToTraceTree td" and ?t' = "spansToTraceTree (keptResourceSpans m td)"
  assume "\<not> prunable its ?t x"
  then obtain y fs where y: "(x, y) \<in> (childRel ?t)\<^sup>*" "fullSpans ?t y = Some fs"
      "ScopeName (scope fs) \<notin> set (ScopeLeaves (config its))"
    unfolding prunable_def subtree_def by blast
  then have ny: "\<not> prunable its ?t y"
    unfolding prunable_def using self_in_subtree [of y ?t] by blast
  with m have "\<not> lookupBool m y" by blast
  with y(2) have "fullSpans ?t' y = Some fs" by (simp add: fullSpans_kept [OF u])
  moreover from path_kept [OF u m ny y(1)] have "y \<in> subtree ?t' x"
    by (simp add: subtree_def)
  ultimately show False
    using p y(3) unfolding prunable_def by blast
qed

lemma depthIs_kept:
  assumes u: "uniqueSpanIDs td"
    and m: "\<And>k. lookupBool m k \<Longrightarrow> \<exists>e. depthIs (spansToTraceTree td) e k"
  shows "depthIs (spansToTraceTree (keptResourceSpans m td)) d x \<Longrightarrow>
     \<exists>e. depthIs (spansToTraceTree td) e x"
proof (induction rule: depthIs.induct)
  case (depth_root k fs)
  from depth_root.hyps(1) have k: "fullSpans (spansToTraceTree td) k = Some fs"
    by (simp add: fullSpans_kept [OF u])
  from depth_root.hyps(2)
  consider "fullSpans (spansToTraceTree td) (ParentSpanID (span fs)) = None"
    | "lookupBool m (ParentSpanID (span fs))"
    by (auto simp add: fullSpans_kept_None [OF u])
  then show ?case
  proof cases
    case 1
    with k have "depthIs (spansToTraceTree td) 0 k" by (rule depthIs.depth_root)
    then show ?thesis by blast
  next
    case 2
    from m [OF this] obtain e where "depthIs (spansToTraceTree td) e (ParentSpanID (span fs))"
      by blast
    with k have "depthIs (spansToTraceTree td) (Suc e) k" by (rule depthIs.depth_child)
    then show ?thesis by blast
  qed
next
  case (depth_child k fs d)
  from depth_child.hyps(1) have k: "fullSpans (spansToTraceTree td) k = Some fs"
    by (simp add: fullSpans_kept [OF u])
  from depth_child.IH obtain e where "depthIs (spansToTraceTree td) e (ParentSpanID (span fs))"
    by blast
  with k have "depthIs (spansToTraceTree td) (Suc e) k" by (rule depthIs.depth_child)
  then show ?case by blast
qed

lemma second_pass_marks_nothing:
  assumes u: "uniqueSpanIDs td" and fuel: "length (allSpans td) \<le> fuel"
    and m: "getScopeBranchesToUnsample fuel its (spansToTraceTree td) = Inr m"
  shows "getScopeBranchesToUnsample fuel its (spansToTraceTree (keptResourceSpans m td)) =
     Inr Map.empty"
proof -
  let ?t = "spansToTraceTree td" and ?t' = "spansToTraceTree (keptResourceSpans m td)"
  from m getScopeBranchesToUnsample_unique [OF u fuel, of its]
  have me: "m = (\<lambda>x. if (\<exists>d. depthIs ?t d x) \<and> prunable its ?t x then Some True else None)"
    by simp
  have marked: "lookupBool m k \<longleftrightarrow> (\<exists>d. depthIs ?t d k) \<and> prunable its ?t k" for k
    unfolding me by (simp add: lookupBool_def)
  have none: "\<not> ((\<exists>d. depthIs ?t' d x) \<and> prunable its ?t' x)" for x
  proof
    assume a: "(\<exists>d. depthIs ?t' d x) \<and> prunable its ?t' x"
    then obtain d where d: "depthIs ?t' d x" by blast
    from depthIs_kept [OF u _ d] marked have "\<exists>e. depthIs ?t e x" by blast
    moreover from prunable_kept [OF u, of m its x] marked a have "prunable its ?t x" by blast
    ultimately have "lookupBool m x" by (simp add: marked)
    then have "fullSpans ?t' x = None" by (simp add: fullSpans_kept_None [OF u])
    with depthIs_key [OF d] show False by simp
  qed
  from fuel length_allSpans_kept [of m td]
  have "length (allSpans (keptResourceSpans m td)) \<le> fuel" by simp
  from getScopeBranchesToUnsample_unique [OF uniqueSpanIDs_kept [OF u] this, of its]
  show ?thesis by (simp add: none)
qed
lemma processTraces_nothing_marked:
  assumes "getScopeBranchesToUnsample fuel its (spansToTraceTree td) = Inr Map.empty"
  shows "\<exists>logs. processTraces fuel hash its td = Inr (td, logs)"
  using assms by (simp add: processTraces_def split: option.splits)

text \<open>
  C6. For a single-trace batch with unique span identities that the sampling decision
  does not accept, the evaluator marks nothing in the output of the processor, and the
  processor returns that output as it is: a second pass removes no further span. The
  parent references need not be acyclic.
\<close>

theorem processTraces_idempotent:
  assumes "getSingleTraceId td = Some tid" and "\<not> sampled hash its tid"
    and "uniqueSpanIDs td" and "length (allSpans td) \<le> fuel"
  shows "\<exists>out logs. processTraces fuel hash its td = Inr (out, logs)
     \<and> getScopeBranchesToUnsample fuel its (spansToTraceTree out) = Inr Map.empty
     \<and> (\<exists>logs'. processTraces fuel hash its out = Inr (out, logs'))"
proof -
  let ?t = "spansToTraceTree td"
  from getScopeBranchesToUnsample_unique [OF assms(3,4), of its]
  obtain m where m: "getScopeBranchesToUnsample fuel its ?t = Inr m" by blast
  note run = processTraces_pruning_path [OF assms(1,2) m]
  show ?thesis
  proof (cases "dom m = {}")
    case True
    then have "m = Map.empty" by simp
    with m have e: "getScopeBranchesToUnsample fuel its ?t = Inr Map.empty" by simp
    from run True have "processTraces fuel hash its td = Inr (td, [])" by simp
    with e processTraces_nothing_marked [OF e, of hash] show ?thesis by blast
  next
    case False
    let ?out = "keptResourceSpans m td"
    from run False have r: "processTraces fuel hash its td =
        Inr (?out, [DebugUnsampling (card (dom m))])"
      by (simp add: removeSpansByIds_eq)
    have e: "getScopeBranchesToUnsample fuel its (spansToTraceTree ?out) = Inr Map.empty"
      by (rule second_pass_marks_nothing [OF assms(3,4) m])
    from r e processTraces_nothing_marked [OF e, of hash] show ?thesis by blast
  qed
qed

lemma keepRoot_hyps:
  "getSingleTraceId keepRoot = Some 1" "\<not> sampled hash0 itsA 1" "uniqueSpanIDs keepRoot"
  "length (allSpans keepRoot) \<le> 3"
  by (simp_all add: keepRoot_def eval_defs)

lemma processTraces_keepRoot:
  "processTraces 3 hash0 itsA keepRoot =
     Inr ([\<lparr>Resource = [], ScopeSpans = [mkScopeSpans ''keep'' [mkSpan 1 0 1]]\<rparr>],
          [DebugUnsampling 2])"
  by (simp add: keepRoot_def eval_defs numeral_3_eq_3 processTraces_def removeSpansByIds_eq
      kept_defs)

theorem processTraces_idempotent_witness:
  "getSingleTraceId keepRoot = Some 1 \<and> \<not> sampled hash0 itsA 1 \<and> uniqueSpanIDs keepRoot
   \<and> processTraces 3 hash0 itsA keepRoot =
       Inr ([\<lparr>Resource = [], ScopeSpans = [mkScopeSpans ''keep'' [mkSpan 1 0 1]]\<rparr>],
            [DebugUnsampling 2])
   \<and> getScopeBranchesToUnsample 3 itsA
        (spansToTraceTree [\<lparr>Resource = [], ScopeSpans = [mkScopeSpans ''keep'' [mkSpan 1 0 1]]\<rparr>]) =
       Inr Map.empty
   \<and> (\<exists>logs'. processTraces 3 hash0 itsA
          [\<lparr>Resource = [], ScopeSpans = [mkScopeSpans ''keep'' [mkSpan 1 0 1]]\<rparr>] =
       Inr ([\<lparr>Resource = [], ScopeSpans = [mkScopeSpans ''keep'' [mkSpan 1 0 1]]\<rparr>], logs'))"
  using processTraces_idempotent [OF keepRoot_hyps] processTraces_keepRoot keepRoot_hyps
  by auto

section \<open>Rounding to a float and truncating to an integer\<close>

lemma pow2_add: "(2::rat) powi (a + b) = 2 powi a * 2 powi b"
  by (simp add: power_int_add)

lemma pow2_le_iff: "(2::rat) powi a \<le> 2 powi b \<longleftrightarrow> a \<le> b"
proof
  assume "(2::rat) powi a \<le> 2 powi b"
  show "a \<le> b"
  proof (rule ccontr)
    assume "\<not> a \<le> b"
    then have "b < a" by simp
    then have "(2::rat) powi b < 2 powi a" by (rule power_int_strict_increasing) simp
    with \<open>(2::rat) powi a \<le> 2 powi b\<close> show False by simp
  qed
next
  assume "a \<le> b"
  then show "(2::rat) powi a \<le> 2 powi b" by (rule power_int_increasing) simp
qed

lemma pow2_less_iff: "(2::rat) powi a < 2 powi b \<longleftrightarrow> a < b"
  using pow2_le_iff [of b a] by (simp add: not_le [symmetric])

lemma pow2_nat: "0 \<le> a \<Longrightarrow> (2::rat) powi a = of_int (2 ^ nat a)"
  by (simp add: power_int_nonneg_exp)

lemma ilog2_bounds:
  assumes "0 < x"
  shows "2 powi (ilog2 x) \<le> x \<and> x < 2 powi (ilog2 x + 1)"
proof (cases "1 \<le> x")
  case True
  define n where "n = \<lfloor>x\<rfloor>"
  from True have n: "1 \<le> n" unfolding n_def by simp
  then have "0 < n" by simp
  from bitlen_bounds [OF this] have b: "2 ^ nat (bitlen n - 1) \<le> n" "n < 2 ^ nat (bitlen n)"
    by simp_all
  from n have b1: "1 \<le> bitlen n" by (simp add: bitlen_alt_def)
  have i: "ilog2 x = bitlen n - 1" using True by (simp add: ilog2_def n_def)
  have "(2::rat) powi (bitlen n - 1) = of_int (2 ^ nat (bitlen n - 1))"
    using b1 by (simp add: pow2_nat)
  also have "\<dots> \<le> of_int n" using b(1) by (simp only: of_int_le_iff)
  also have "\<dots> \<le> x" unfolding n_def by simp
  finally have lo: "2 powi (ilog2 x) \<le> x" by (simp add: i)
  from b(2) have "n + 1 \<le> 2 ^ nat (bitlen n)" by simp
  then have "(of_int (n + 1) :: rat) \<le> of_int (2 ^ nat (bitlen n))"
    by (simp only: of_int_le_iff)
  moreover have "x < of_int (n + 1)" unfolding n_def by linarith
  moreover have "(2::rat) powi (bitlen n) = of_int (2 ^ nat (bitlen n))"
    using b1 by (simp add: pow2_nat)
  ultimately have "x < 2 powi (ilog2 x + 1)" by (simp add: i)
  with lo show ?thesis by simp
next
  case False
  with assms have x: "0 < x" "x < 1" by simp_all
  define y where "y = 1 / x"
  from x have y: "1 < y" by (simp add: y_def)
  define n where "n = \<lceil>y\<rceil> - 1"
  from y have "1 < \<lceil>y\<rceil>" by (simp add: less_ceiling_iff)
  then have n: "1 \<le> n" by (simp add: n_def)
  then have "0 < n" by simp
  from bitlen_bounds [OF this] have b: "2 ^ nat (bitlen n - 1) \<le> n" "n < 2 ^ nat (bitlen n)"
    by simp_all
  from n have b1: "1 \<le> bitlen n" by (simp add: bitlen_alt_def)
  have i: "ilog2 x = - bitlen n" using False by (simp add: ilog2_def n_def y_def)
  have ny: "of_int n < y" "y \<le> of_int n + 1"
    unfolding n_def by linarith+
  have p1: "(2::rat) powi (bitlen n) = of_int (2 ^ nat (bitlen n))"
    using b1 by (simp add: pow2_nat)
  have p2: "(2::rat) powi (bitlen n - 1) = of_int (2 ^ nat (bitlen n - 1))"
    using b1 by (simp add: pow2_nat)
  from b(2) have "n + 1 \<le> 2 ^ nat (bitlen n)" by simp
  then have "(of_int (n + 1) :: rat) \<le> of_int (2 ^ nat (bitlen n))"
    by (simp only: of_int_le_iff)
  with ny(2) have "y \<le> 2 powi (bitlen n)" by (simp add: p1)
  then have "1 / 2 powi (bitlen n) \<le> 1 / y"
    using y by (intro divide_left_mono) simp_all
  then have lo: "2 powi (ilog2 x) \<le> x"
    using x by (simp add: i y_def power_int_minus_divide)
  have "(of_int (2 ^ nat (bitlen n - 1)) :: rat) \<le> of_int n"
    using b(1) by (simp only: of_int_le_iff)
  then have "2 powi (bitlen n - 1) < y" unfolding p2 using ny(1) by (rule le_less_trans)
  moreover from y have "0 < y * 2 powi (bitlen n - 1)" by simp
  ultimately have "1 / y < 1 / 2 powi (bitlen n - 1)"
    by (intro divide_strict_left_mono) simp_all
  moreover have "(2::rat) powi (- bitlen n + 1) = 1 / 2 powi (bitlen n - 1)"
    using power_int_minus_divide [of "2::rat" "bitlen n - 1"] by simp
  ultimately have "x < 2 powi (ilog2 x + 1)"
    using x by (simp add: i y_def)
  with lo show ?thesis by simp
qed

lemma roundHalfEven_ge_even:
  assumes "even Z"
  shows "Z \<le> roundHalfEven y \<longleftrightarrow> of_int Z - 1 / 2 \<le> y"
proof -
  define f where "f = \<lfloor>y\<rfloor>"
  have f: "of_int f \<le> y" "y < of_int f + 1" unfolding f_def by linarith+
  show ?thesis
  proof
    assume a: "Z \<le> roundHalfEven y"
    show "of_int Z - 1 / 2 \<le> y"
    proof (cases "y - of_int f < 1 / 2")
      case True
      then have "roundHalfEven y = f" by (simp add: roundHalfEven_def f_def)
      with a have "(of_int Z :: rat) \<le> of_int f" by simp
      with f(1) show ?thesis by linarith
    next
      case False
      from a have "Z \<le> f + 1"
        unfolding roundHalfEven_def f_def [symmetric] by (simp split: if_splits)
      then have "(of_int Z :: rat) \<le> of_int f + 1" by (metis of_int_le_iff of_int_add of_int_1)
      with False show ?thesis by linarith
    qed
  next
    assume a: "of_int Z - 1 / 2 \<le> y"
    with f(2) have "(of_int Z :: rat) < of_int (f + 2)" by simp
    then have "Z < f + 2" by (simp only: of_int_less_iff)
    then consider "Z \<le> f" | "Z = f + 1" by linarith
    then show "Z \<le> roundHalfEven y"
    proof cases
      case 1
      then show ?thesis
        unfolding roundHalfEven_def f_def [symmetric] by simp
    next
      case 2
      with a have "1 / 2 \<le> y - of_int f" by simp
      moreover from 2 assms have "odd f" by simp
      ultimately show ?thesis
        unfolding roundHalfEven_def f_def [symmetric] using 2 by simp
    qed
  qed
qed

lemma floor_roundToFloat:
  assumes x: "0 < x" and u: "ulp fmt x = 2 powi j" and j: "j \<le> - 1"
  shows "\<lfloor>roundToFloat fmt x\<rfloor> = \<lfloor>x + ulp fmt x / 2\<rfloor>"
proof -
  define K :: int where "K = 2 ^ nat (- j)"
  have K: "(2::rat) powi (- j) = of_int K" using j by (simp add: K_def pow2_nat)
  have Kpos: "0 < K" by (simp add: K_def)
  have uK: "ulp fmt x * of_int K = 1"
    unfolding u K [symmetric] pow2_add [symmetric] by simp
  have upos: "0 < ulp fmt x" by (simp add: u)
  have "even K" using j by (simp add: K_def)
  define R where "R = roundHalfEven (x / ulp fmt x)"
  have r: "roundToFloat fmt x = of_int R * ulp fmt x"
    using x by (simp add: roundToFloat_def R_def)
  have div: "x / ulp fmt x = x * of_int K"
    using uK upos by (simp add: field_simps)
  have key: "of_int n \<le> of_int R * ulp fmt x \<longleftrightarrow> of_int n \<le> x + ulp fmt x / 2" for n :: int
  proof -
    have "of_int n \<le> of_int R * ulp fmt x \<longleftrightarrow>
        of_int n * of_int K \<le> of_int R * ulp fmt x * (of_int K :: rat)"
      using Kpos by simp
    also have "\<dots> \<longleftrightarrow> (of_int (n * K) :: rat) \<le> of_int R"
      using uK by (simp add: mult.assoc)
    also have "\<dots> \<longleftrightarrow> n * K \<le> R" by (simp only: of_int_le_iff)
    also have "\<dots> \<longleftrightarrow> of_int (n * K) - 1 / 2 \<le> x * of_int K"
      unfolding R_def div using \<open>even K\<close> by (intro roundHalfEven_ge_even) simp
    also have "\<dots> \<longleftrightarrow> (of_int n - ulp fmt x / 2) * of_int K \<le> x * of_int K"
      using uK by (simp add: algebra_simps)
    also have "\<dots> \<longleftrightarrow> of_int n - ulp fmt x / 2 \<le> x"
      using Kpos by simp
    finally show ?thesis by linarith
  qed
  have "\<lfloor>of_int R * ulp fmt x\<rfloor> \<le> \<lfloor>x + ulp fmt x / 2\<rfloor>"
    using key [of "\<lfloor>of_int R * ulp fmt x\<rfloor>"] by (simp add: le_floor_iff)
  moreover have "\<lfloor>x + ulp fmt x / 2\<rfloor> \<le> \<lfloor>of_int R * ulp fmt x\<rfloor>"
    using key [of "\<lfloor>x + ulp fmt x / 2\<rfloor>"] by (simp add: le_floor_iff)
  ultimately show ?thesis by (simp add: r)
qed
lemma ulp_pos: "0 < ulp fmt x"
  by (simp add: ulp_def)

lemma less_ulp_pow:
  assumes "0 < x"
  shows "x < ulp fmt x * 2 ^ precision fmt"
proof -
  have "ilog2 x + 1 \<le> (max (ilog2 x) (emin fmt) - int (precision fmt) + 1) + int (precision fmt)"
    by simp
  then have "(2::rat) powi (ilog2 x + 1) \<le>
      2 powi ((max (ilog2 x) (emin fmt) - int (precision fmt) + 1) + int (precision fmt))"
    by (simp only: pow2_le_iff)
  also have "\<dots> = 2 powi (max (ilog2 x) (emin fmt) - int (precision fmt) + 1) *
      2 powi int (precision fmt)"
    by (rule pow2_add)
  also have "\<dots> = ulp fmt x * 2 ^ precision fmt"
    using assms by (simp add: ulp_def)
  finally show ?thesis using ilog2_bounds [OF assms] by simp
qed

lemma ilog2_less:
  assumes "0 < x" and "x < 2 powi n"
  shows "ilog2 x < n"
proof -
  from ilog2_bounds [OF assms(1)] assms(2) have "(2::rat) powi (ilog2 x) < 2 powi n" by simp
  then show ?thesis by (simp only: pow2_less_iff)
qed

lemma scaled_rate_floor:
  fixes p c' :: rat
  assumes P: "20 \<le> precision fmt" and E: "emin fmt \<le> 0"
    and c': "0 < c'" "c' < 256"
    and up: "2 ^ precision fmt * (c' - 4096 / 25) \<le> 896 / 25"
    and lo: "2 ^ (precision fmt + 1) * (4096 / 25 - c') \<le> c'"
    and rep: "representable fmt p" and p: "0 < p" "p \<le> 100"
  shows "\<lfloor>roundToFloat fmt (p * c')\<rfloor> = \<lfloor>p * 4096 / 25\<rfloor>"
proof -
  define Pi where "Pi = int (precision fmt)"
  define qq where "qq = max (ilog2 p) (emin fmt) - Pi + 1"
  define x where "x = p * 4096 / 25"
  define x' where "x' = p * c'"
  define N where "N = \<lfloor>x\<rfloor>"
  define j' where "j' = max (ilog2 x') (emin fmt) - Pi + 1"
  have Pi: "20 \<le> Pi" using P by (simp add: Pi_def)
  have powP: "(2::rat) powi Pi = 2 ^ precision fmt" by (simp add: Pi_def)
  \<comment> \<open>the percentage lies on the grid of its unit in the last place\<close>
  have up_eq: "ulp fmt p = 2 powi qq" using p by (simp add: ulp_def qq_def Pi_def)
  have "p < 2 powi 7" using p by simp
  with p(1) have "ilog2 p < 7" by (rule ilog2_less)
  with E Pi have qq: "qq \<le> - 13" by (simp add: qq_def)
  have qqE: "emin fmt - Pi + 1 \<le> qq" by (simp add: qq_def)
  define R where "R = roundHalfEven (p / ulp fmt p)"
  from rep p have pR: "p = of_int R * 2 powi qq"
    by (simp add: representable_def roundToFloat_def R_def up_eq)
  have p_less: "p < 2 powi qq * 2 ^ precision fmt"
    using less_ulp_pow [OF p(1), of fmt] by (simp add: up_eq)
  \<comment> \<open>so the exact product stays a grid step below the next integer\<close>
  define D :: int where "D = 2 ^ nat (- (qq + 12))"
  have Dpos: "0 < D" by (simp add: D_def)
  have D: "(2::rat) powi (- (qq + 12)) = of_int D" using qq by (simp add: D_def pow2_nat)
  have gD: "2 powi (qq + 12) * (of_int D :: rat) = 1"
    unfolding D [symmetric] pow2_add [symmetric] by simp
  have "(2::rat) powi (qq + 12) = 2 powi qq * 4096" unfolding pow2_add by simp
  with gD have qD: "2 powi qq * 4096 * (of_int D :: rat) = 1" by simp
  have xD: "x * 25 * of_int D = of_int R"
  proof -
    have "x * 25 * of_int D = of_int R * (2 powi qq * 4096 * of_int D)"
      unfolding x_def by (subst pR) simp
    then show ?thesis unfolding qD by simp
  qed
  have "x < of_int N + 1" unfolding N_def by linarith
  then have "x * 25 * of_int D < (of_int N + 1) * 25 * of_int D"
    using Dpos by simp
  then have "(of_int R :: rat) < of_int ((N + 1) * 25 * D)" unfolding xD by simp
  then have "R < (N + 1) * 25 * D" by (simp only: of_int_less_iff)
  then have "R + 1 \<le> (N + 1) * 25 * D" by simp
  then have "(of_int (R + 1) :: rat) \<le> of_int ((N + 1) * 25 * D)" by (simp only: of_int_le_iff)
  then have "x * 25 * of_int D + 1 \<le> (of_int N + 1) * 25 * of_int D" unfolding xD by simp
  then have "x * 25 * of_int D + 2 powi (qq + 12) * of_int D \<le> (of_int N + 1) * 25 * of_int D"
    unfolding gD .
  then have "(x * 25 + 2 powi (qq + 12)) * of_int D \<le> (of_int N + 1) * 25 * of_int D"
    by (simp add: algebra_simps)
  then have "x * 25 + 2 powi (qq + 12) \<le> (of_int N + 1) * 25"
    using Dpos by simp
  then have gap: "x + 2 powi qq * 4096 / 25 \<le> of_int N + 1"
    unfolding pow2_add by simp
  \<comment> \<open>the product computed in the format\<close>
  have x'pos: "0 < x'" using p c' by (simp add: x'_def)
  have u'_eq: "ulp fmt x' = 2 powi j'" using x'pos by (simp add: ulp_def j'_def Pi_def)
  have "x' < 2 powi qq * 2 ^ precision fmt * 256"
  proof -
    have "p * c' < (2 powi qq * 2 ^ precision fmt) * 256"
      using p_less c' p(1) by (intro mult_strict_mono) simp_all
    then show ?thesis by (simp add: x'_def)
  qed
  also have "\<dots> = 2 powi (qq + Pi + 8)" unfolding pow2_add powP by simp
  finally have "ilog2 x' < qq + Pi + 8" using x'pos by (intro ilog2_less)
  with qqE have j'qq: "j' \<le> qq + 8" by (simp add: j'_def)
  have "x' < 100 * 256" unfolding x'_def using p c' by (intro mult_le_less_imp_less) simp_all
  then have "x' < 2 powi 15" by simp
  with x'pos have "ilog2 x' < 15" by (rule ilog2_less)
  with E Pi have j'neg: "j' \<le> - 1" by (simp add: j'_def)
  have fl: "\<lfloor>roundToFloat fmt x'\<rfloor> = \<lfloor>x' + ulp fmt x' / 2\<rfloor>"
    by (rule floor_roundToFloat [OF x'pos u'_eq j'neg])
  have half: "ulp fmt x' / 2 \<le> 2 powi qq * 128"
  proof -
    from j'qq have "(2::rat) powi j' \<le> 2 powi (qq + 8)" by (simp only: pow2_le_iff)
    then show ?thesis unfolding u'_eq pow2_add by simp
  qed
  have x'_less: "x' < ulp fmt x' * 2 ^ precision fmt" by (rule less_ulp_pow [OF x'pos])
  have diff: "x' - x = p * (c' - 4096 / 25)" by (simp add: x'_def x_def algebra_simps)
  \<comment> \<open>above: the rounded product stays below the next integer\<close>
  have err_up: "p * (c' - 4096 / 25) + 2 powi qq * 128 < 2 powi qq * 4096 / 25"
  proof (cases "c' \<le> 4096 / 25")
    case True
    with p(1) have "p * (c' - 4096 / 25) \<le> 0" by (simp add: mult_le_0_iff)
    moreover have "(2::rat) powi qq * 128 < 2 powi qq * 4096 / 25" by simp
    ultimately show ?thesis by linarith
  next
    case False
    then have "0 < c' - 4096 / 25" by simp
    with p_less have "p * (c' - 4096 / 25) < 2 powi qq * 2 ^ precision fmt * (c' - 4096 / 25)"
      by simp
    also have "\<dots> = 2 powi qq * (2 ^ precision fmt * (c' - 4096 / 25))" by simp
    also have "\<dots> \<le> 2 powi qq * (896 / 25)" using up by (intro mult_left_mono) simp_all
    finally show ?thesis by simp
  qed
  have upper: "x' + ulp fmt x' / 2 < of_int N + 1"
    using diff half err_up gap by linarith
  \<comment> \<open>below: the rounded product does not fall under the integer part\<close>
  have err_lo: "p * (4096 / 25 - c') \<le> ulp fmt x' / 2"
  proof (cases "4096 / 25 \<le> c'")
    case True
    with p(1) have "p * (4096 / 25 - c') \<le> 0" by (simp add: mult_le_0_iff)
    with ulp_pos [of fmt x'] show ?thesis by linarith
  next
    case False
    have "p * (2 ^ (precision fmt + 1) * (4096 / 25 - c')) \<le> p * c'"
      using lo p(1) by (intro mult_left_mono) simp_all
    also have "\<dots> < ulp fmt x' * 2 ^ precision fmt" using x'_less by (simp add: x'_def)
    finally have "(p * (4096 / 25 - c') * 2) * 2 ^ precision fmt <
        ulp fmt x' * 2 ^ precision fmt"
      by (simp add: algebra_simps)
    then have "p * (4096 / 25 - c') * 2 < ulp fmt x'"
      by (rule mult_right_less_imp_less) simp
    then have "p * (4096 / 25 - c') * 2 / 2 < ulp fmt x' / 2"
      by (rule divide_strict_right_mono) simp
    then show ?thesis by simp
  qed
  have "of_int N \<le> x" unfolding N_def by simp
  moreover have "x - x' = p * (4096 / 25 - c')" by (simp add: x'_def x_def algebra_simps)
  ultimately have lower: "of_int N \<le> x' + ulp fmt x' / 2" using err_lo by linarith
  from lower upper have "\<lfloor>x' + ulp fmt x' / 2\<rfloor> = N" by (intro floor_unique) simp_all
  with fl show ?thesis by (simp add: x'_def N_def x_def)
qed

section \<open>The scaled sampling rate and the decision\<close>

lemma percentageScaleFactor_eq: "percentageScaleFactor = 4096 / 25"
  by (simp add: percentageScaleFactor_def numHashBuckets_def)

lemma scaleFactor_binary32: "roundToFloat binary32 (4096 / 25) = 5368709 / 32768"
  by code_simp

lemma scaleFactor_binary64:
  "roundToFloat binary64 (4096 / 25) = 5764607523034235 / 35184372088832"
  by code_simp

lemma scaled_rate_floor_formats:
  assumes fmt: "fmt = binary32 \<or> fmt = binary64"
    and rep: "representable fmt p" and p: "0 \<le> p" "p \<le> 100"
  shows "\<lfloor>roundToFloat fmt (p * roundToFloat fmt percentageScaleFactor)\<rfloor> =
     \<lfloor>p * 16384 / 100\<rfloor>"
proof (cases "p = 0")
  case True
  then show ?thesis by (simp add: roundToFloat_def)
next
  case False
  with p have pos: "0 < p" by simp
  have e: "p * 16384 / 100 = p * 4096 / 25" by simp
  from fmt show ?thesis
  proof
    assume f: "fmt = binary32"
    have "\<lfloor>roundToFloat binary32 (p * (5368709 / 32768))\<rfloor> = \<lfloor>p * 4096 / 25\<rfloor>"
    proof (rule scaled_rate_floor)
      show "20 \<le> precision binary32" "emin binary32 \<le> 0" by (simp_all add: binary32_def)
      show "(0::rat) < 5368709 / 32768" "(5368709 / 32768 :: rat) < 256" by simp_all
      show "2 ^ precision binary32 * (5368709 / 32768 - 4096 / 25) \<le> (896 / 25 :: rat)"
        by (simp add: binary32_def)
      show "2 ^ (precision binary32 + 1) * (4096 / 25 - 5368709 / 32768) \<le>
          (5368709 / 32768 :: rat)"
        by (simp add: binary32_def)
      from rep f show "representable binary32 p" by simp
    qed (use pos p in simp_all)
    then show ?thesis
      unfolding e f percentageScaleFactor_eq scaleFactor_binary32 .
  next
    assume f: "fmt = binary64"
    have "\<lfloor>roundToFloat binary64 (p * (5764607523034235 / 35184372088832))\<rfloor> =
        \<lfloor>p * 4096 / 25\<rfloor>"
    proof (rule scaled_rate_floor)
      show "20 \<le> precision binary64" "emin binary64 \<le> 0" by (simp_all add: binary64_def)
      show "(0::rat) < 5764607523034235 / 35184372088832"
          "(5764607523034235 / 35184372088832 :: rat) < 256" by simp_all
      show "2 ^ precision binary64 * (5764607523034235 / 35184372088832 - 4096 / 25) \<le>
          (896 / 25 :: rat)"
        by (simp add: binary64_def)
      show "2 ^ (precision binary64 + 1) * (4096 / 25 - 5764607523034235 / 35184372088832) \<le>
          (5764607523034235 / 35184372088832 :: rat)"
        by (simp add: binary64_def)
      from rep f show "representable binary64 p" by simp
    qed (use pos p in simp_all)
    then show ?thesis
      unfolding e f percentageScaleFactor_eq scaleFactor_binary64 .
  qed
qed

lemma scaledSamplingRate_eq:
  assumes fmt: "fmt = binary32 \<or> fmt = binary64"
    and rep: "representable fmt (SamplingPercentage cfg)"
    and p: "0 \<le> SamplingPercentage cfg" "SamplingPercentage cfg \<le> 100"
  shows "scaledSamplingRate (newInTraceSamplerSpansProcessor fmt cfg) =
       of_int \<lfloor>SamplingPercentage cfg * 16384 / 100\<rfloor>"
    and "0 \<le> \<lfloor>SamplingPercentage cfg * 16384 / 100\<rfloor>"
    and "\<lfloor>SamplingPercentage cfg * 16384 / 100\<rfloor> \<le> 16384"
proof -
  let ?p = "SamplingPercentage cfg"
  let ?r = "roundToFloat fmt (?p * roundToFloat fmt percentageScaleFactor)"
  note fl = scaled_rate_floor_formats [OF fmt rep p]
  from p(1) show nonneg: "0 \<le> \<lfloor>?p * 16384 / 100\<rfloor>" by simp
  from p(2) have "?p * 16384 / 100 \<le> 16384" by simp
  then show "\<lfloor>?p * 16384 / 100\<rfloor> \<le> 16384" by (simp add: floor_le_iff)
  have "0 \<le> ?r"
  proof (rule ccontr)
    assume "\<not> 0 \<le> ?r"
    then have "\<lfloor>?r\<rfloor> < 0" by (simp add: floor_less_iff)
    with fl nonneg show False by simp
  qed
  then show "scaledSamplingRate (newInTraceSamplerSpansProcessor fmt cfg) =
       of_int \<lfloor>?p * 16384 / 100\<rfloor>"
    by (simp add: newInTraceSamplerSpansProcessor_def toUint32_def fl)
qed

lemma word_less_of_int:
  fixes w :: "32 word"
  assumes "0 \<le> T" and "T \<le> 16384"
  shows "w < of_int T \<longleftrightarrow> int (unat w) < T"
proof -
  from assms have "uint (of_int T :: 32 word) = T"
    by (simp add: uint_word_of_int)
  then show ?thesis by (simp add: word_less_def)
qed

text \<open>
  C2. For every trace identity, seed and sampling percentage between 0 and 100, a float
  of either width, the decision is: the low 14 bits of the hash are less than the exact
  floor of the percentage times 16384 / 100. The rounding of the scale factor and of the
  product never carries the truncated product across an integer.
\<close>

theorem sampled_iff_hash_below_floor:
  assumes "fmt = binary32 \<or> fmt = binary64"
    and "representable fmt (SamplingPercentage cfg)"
    and "0 \<le> SamplingPercentage cfg" and "SamplingPercentage cfg \<le> 100"
  shows "sampled hash (newInTraceSamplerSpansProcessor fmt cfg) tid \<longleftrightarrow>
     int (unat (hash tid (HashSeed cfg) AND (16384 - 1))) <
       \<lfloor>SamplingPercentage cfg * 16384 / 100\<rfloor>"
proof -
  note r = scaledSamplingRate_eq [OF assms]
  have "config (newInTraceSamplerSpansProcessor fmt cfg) = cfg"
    by (simp add: newInTraceSamplerSpansProcessor_def)
  moreover have "bitMaskHashBuckets = 16384 - 1"
    by (simp add: bitMaskHashBuckets_def numHashBuckets_def)
  ultimately show ?thesis
    unfolding sampled_def r(1) using word_less_of_int [OF r(2,3)] by simp
qed

lemma representable_testConfig: "representable binary32 (SamplingPercentage testConfig)"
  unfolding testConfig_def by code_simp

lemma floor_testConfig: "\<lfloor>SamplingPercentage testConfig * 16384 / 100\<rfloor> = 2506"
  by (simp add: testConfig_def floor_eq_iff)

theorem sampled_iff_hash_below_floor_witness:
  "representable binary32 (SamplingPercentage testConfig)
   \<and> \<lfloor>SamplingPercentage testConfig * 16384 / 100\<rfloor> = 2506
   \<and> sampled hash0 (newInTraceSamplerSpansProcessor binary32 testConfig) 1
   \<and> \<not> sampled hash2506 (newInTraceSamplerSpansProcessor binary32 testConfig) 1"
proof -
  have r: "0 \<le> SamplingPercentage testConfig" "SamplingPercentage testConfig \<le> 100"
    by (simp_all add: testConfig_def)
  have f: "binary32 = binary32 \<or> binary32 = binary64" by simp
  from sampled_iff_hash_below_floor [OF f representable_testConfig r, of hash0 1]
  have "sampled hash0 (newInTraceSamplerSpansProcessor binary32 testConfig) 1 \<longleftrightarrow>
      int (unat (hash0 1 (HashSeed testConfig) AND (16384 - 1))) < 2506"
    by (simp only: floor_testConfig)
  then have a: "sampled hash0 (newInTraceSamplerSpansProcessor binary32 testConfig) 1"
    by (simp add: hash0_def)
  from sampled_iff_hash_below_floor [OF f representable_testConfig r, of hash2506 1]
  have "sampled hash2506 (newInTraceSamplerSpansProcessor binary32 testConfig) 1 \<longleftrightarrow>
      int (unat (hash2506 1 (HashSeed testConfig) AND (16384 - 1))) < 2506"
    by (simp only: floor_testConfig)
  then have b: "\<not> sampled hash2506 (newInTraceSamplerSpansProcessor binary32 testConfig) 1"
    by (simp add: hash2506_def)
  from representable_testConfig floor_testConfig a b show ?thesis by simp
qed

lemma representable_0: "representable fmt 0"
  by (simp add: representable_def roundToFloat_def)

lemma representable_100:
  "representable binary32 100" "representable binary64 100"
  unfolding representable_def by code_simp+

lemma and_mask_less: "int (unat ((w :: 32 word) AND (16384 - 1))) < 16384"
proof -
  have "w AND (16384 - 1) \<le> 16384 - 1" by (rule word_and_le1)
  then have "unat (w AND (16384 - 1)) \<le> unat (16384 - 1 :: 32 word)"
    by (simp only: word_le_nat_alt)
  moreover have "unat (16384 - 1 :: 32 word) = 16383" by simp
  ultimately have "unat (w AND (16384 - 1)) \<le> 16383" by (simp only:)
  then show ?thesis by linarith
qed

text \<open>
  C3. With sampling percentage 0 the decision accepts no trace, and with 100 it accepts
  every trace, whatever the trace identity, the seed and the hash, for a percentage of
  either float width; at 100 the processor returns every single-trace batch as it is.
\<close>

theorem sampling_percentage_boundaries:
  assumes "fmt = binary32 \<or> fmt = binary64"
  shows "(SamplingPercentage cfg = 0 \<longrightarrow>
            \<not> sampled hash (newInTraceSamplerSpansProcessor fmt cfg) tid)
     \<and> (SamplingPercentage cfg = 100 \<longrightarrow>
            sampled hash (newInTraceSamplerSpansProcessor fmt cfg) tid)
     \<and> (SamplingPercentage cfg = 100 \<longrightarrow> getSingleTraceId td = Some tid \<longrightarrow>
            processTraces fuel hash (newInTraceSamplerSpansProcessor fmt cfg) td = Inr (td, []))"
proof -
  have c: "config (newInTraceSamplerSpansProcessor fmt cfg) = cfg"
    by (simp add: newInTraceSamplerSpansProcessor_def)
  have m: "bitMaskHashBuckets = 16384 - 1"
    by (simp add: bitMaskHashBuckets_def numHashBuckets_def)
  have zero: "\<not> sampled hash (newInTraceSamplerSpansProcessor fmt cfg) tid"
    if z: "SamplingPercentage cfg = 0"
  proof -
    have "representable fmt (SamplingPercentage cfg)" by (simp add: z representable_0)
    from scaledSamplingRate_eq(1) [OF assms this] z
    have "scaledSamplingRate (newInTraceSamplerSpansProcessor fmt cfg) = 0" by simp
    then show ?thesis by (simp add: sampled_def)
  qed
  have full: "sampled hash (newInTraceSamplerSpansProcessor fmt cfg) tid"
    if h: "SamplingPercentage cfg = 100"
  proof -
    from assms representable_100 have rep: "representable fmt (SamplingPercentage cfg)"
      by (auto simp add: h)
    from scaledSamplingRate_eq(1) [OF assms rep] h
    have "scaledSamplingRate (newInTraceSamplerSpansProcessor fmt cfg) = of_int 16384" by simp
    moreover have "hash tid (HashSeed cfg) AND (16384 - 1) < (of_int 16384 :: 32 word)"
      using word_less_of_int [of 16384 "hash tid (HashSeed cfg) AND (16384 - 1)"]
        and_mask_less [of "hash tid (HashSeed cfg)"] by simp
    ultimately show ?thesis by (simp add: sampled_def c m)
  qed
  have "processTraces fuel hash (newInTraceSamplerSpansProcessor fmt cfg) td = Inr (td, [])"
    if "SamplingPercentage cfg = 100" "getSingleTraceId td = Some tid"
    using full [OF that(1)] that(2) by (simp add: processTraces_def)
  with zero full show ?thesis by blast
qed

theorem sampling_percentage_boundaries_witness:
  "\<not> sampled hash0 (newInTraceSamplerSpansProcessor binary32
        \<lparr>SamplingPercentage = 0, HashSeed = 22, ScopeLeaves = [''foo'', ''bar'']\<rparr>) 1
   \<and> sampled hashOnes (newInTraceSamplerSpansProcessor binary64
        \<lparr>SamplingPercentage = 100, HashSeed = 22, ScopeLeaves = [''foo'', ''bar'']\<rparr>) 1"
proof -
  have "binary32 = binary32 \<or> binary32 = binary64" "binary64 = binary32 \<or> binary64 = binary64"
    by simp_all
  from sampling_percentage_boundaries [OF this(1), of
      "\<lparr>SamplingPercentage = 0, HashSeed = 22, ScopeLeaves = [''foo'', ''bar'']\<rparr>" hash0 1]
    sampling_percentage_boundaries [OF this(2), of
      "\<lparr>SamplingPercentage = 100, HashSeed = 22, ScopeLeaves = [''foo'', ''bar'']\<rparr>" hashOnes 1]
  show ?thesis by simp
qed

section \<open>The order of the roots does not matter\<close>

text \<open>
  Go ranges over the keys of \<open>fullSpans\<close> in an order of its own choice, so the roots
  may come in any order. The evaluator marks the same spans for each of them.
\<close>

lemma depthIs_roots_update: "depthIs (t\<lparr>roots := rs\<rparr>) d k \<longleftrightarrow> depthIs t d k"
proof
  assume "depthIs (t\<lparr>roots := rs\<rparr>) d k"
  then show "depthIs t d k"
    by (induction rule: depthIs.induct) (auto intro: depthIs.intros)
next
  assume "depthIs t d k"
  then show "depthIs (t\<lparr>roots := rs\<rparr>) d k"
    by (induction rule: depthIs.induct) (auto intro: depthIs.intros)
qed

lemma prunable_roots_update: "prunable its (t\<lparr>roots := rs\<rparr>) k \<longleftrightarrow> prunable its t k"
  by (simp add: prunable_def subtree_def childRel_def)

lemma wellFormedTree_roots_update:
  assumes "wellFormedTree t" and "set rs = set (roots t)" and "distinct rs"
  shows "wellFormedTree (t\<lparr>roots := rs\<rparr>)"
  using assms unfolding wellFormedTree_def by simp

lemma getScopeBranchesToUnsample_roots_order:
  assumes u: "uniqueSpanIDs td" and fuel: "length (allSpans td) \<le> fuel"
    and rs: "set rs = set (roots (spansToTraceTree td))" "distinct rs"
  shows "getScopeBranchesToUnsample fuel its ((spansToTraceTree td)\<lparr>roots := rs\<rparr>) =
     getScopeBranchesToUnsample fuel its (spansToTraceTree td)"
proof -
  let ?t = "spansToTraceTree td"
  have wf: "wellFormedTree (?t\<lparr>roots := rs\<rparr>)"
    by (rule wellFormedTree_roots_update [OF wellFormedTree_spansToTraceTree [OF u] rs])
  from card_keys_le [of td] fuel
  have "card (dom (fullSpans (?t\<lparr>roots := rs\<rparr>))) \<le> fuel" by simp
  from getScopeBranchesToUnsample_result [OF wf this, of its]
  show ?thesis
    unfolding getScopeBranchesToUnsample_unique [OF u fuel]
    by (simp add: depthIs_roots_update prunable_roots_update)
qed

end
